theory Spec2Isabelle
  imports Main "HOL-Library.AList" "HOL-Library.FSet"
begin

section \<open>Communique allocation (\<open>find_communique\<close>)\<close>

text \<open>
  The meet keeps \<open>self.commalloc\<close>, a Python dict from a report lookup key to the
  communique number already given to it (a string).  A Python dict iterates in insertion
  order and a store under a new key appends, so the dict is an association list;
  \<open>AList.update\<close> overwrites the entry of a present key and appends an absent one.
\<close>

type_synonym commalloc = "(string \<times> string) list"

definition MAXREP :: nat where
  "MAXREP = 10000"

text \<open>Python's \<open>str(cnt)\<close> for the non-negative counter: the decimal numeral.\<close>

definition digit_char :: "nat \<Rightarrow> char" where
  "digit_char d = ''0123456789'' ! d"

function str :: "nat \<Rightarrow> string" where
  "str n = (if n < 10 then [digit_char n] else str (n div 10) @ [digit_char (n mod 10)])"
  by pat_completeness auto
termination
  by (relation "measure (\<lambda>n. n)") auto

declare str.simps [simp del]

text \<open>
  The first loop: \<open>for c in self.commalloc\<close>.  It stops at the entry of \<open>lookup\<close>
  with its number, and collects into \<open>noset\<close> the numbers of the entries before it.
\<close>

fun scan_commalloc :: "commalloc \<Rightarrow> string \<Rightarrow> string set \<Rightarrow> string option \<times> string set" where
  "scan_commalloc [] lookup noset = (None, noset)"
| "scan_commalloc ((c, v) # cs) lookup noset =
     (if c = lookup then (Some v, noset)
      else scan_commalloc cs lookup (insert v noset))"

text \<open>
  The second loop: \<open>while True\<close>, counting \<open>cnt\<close> up.  It leaves either with the
  write back of a free number, or when \<open>cnt\<close> has passed \<open>MAXREP\<close>; \<open>ret\<close> is
  then still the last numeral tried.
\<close>

function alloc_loop :: "commalloc \<Rightarrow> string \<Rightarrow> string set \<Rightarrow> nat \<Rightarrow> string option \<times> commalloc" where
  "alloc_loop ca lookup noset cnt =
     (let ret = str cnt in
      if ret \<notin> noset then (Some ret, AList.update lookup ret ca)
      else let cnt' = cnt + 1 in
        if cnt' > MAXREP then (Some ret, ca)
        else alloc_loop ca lookup noset cnt')"
  by pat_completeness auto
termination
  by (relation "measure (\<lambda>(ca, lookup, noset, cnt). Suc MAXREP - cnt)") auto

declare alloc_loop.simps [simp del]

definition find_communique :: "commalloc \<Rightarrow> string \<Rightarrow> string option \<times> commalloc" where
  "find_communique ca lookup =
     (case scan_commalloc ca lookup {} of
        (Some v, noset) \<Rightarrow> (Some v, ca)
      | (None, noset) \<Rightarrow> alloc_loop ca lookup noset 1)"

text \<open>
  The inverse reading of a numeral, used to see that \<open>str\<close> gives different
  strings for different numbers.
\<close>

definition digit_val :: "char \<Rightarrow> nat" where
  "digit_val c = of_char c - 48"

definition str_val :: "string \<Rightarrow> nat" where
  "str_val s = foldl (\<lambda>a c. 10 * a + digit_val c) 0 s"

text \<open>
  A table in which each of the numbers 1 to \<open>MAXREP\<close> is taken: the report
  \<open>n\<close> holds the number \<open>n\<close>.
\<close>

definition full_commalloc :: commalloc where
  "full_commalloc = map (\<lambda>n. (''report'' @ str n, str n)) [1..<Suc MAXREP]"

subsection \<open>Properties of the allocator\<close>

lemma scan_commalloc_found:
  "map_of ca k = Some v \<Longrightarrow> fst (scan_commalloc ca k ns) = Some v"
  by (induction ca k ns rule: scan_commalloc.induct) (auto split: if_splits)

lemma scan_commalloc_absent:
  "map_of ca k = None \<Longrightarrow> scan_commalloc ca k ns = (None, ns \<union> snd ` set ca)"
  by (induction ca k ns rule: scan_commalloc.induct) (auto split: if_splits)

lemma alloc_loop_free:
  "cnt \<le> n \<Longrightarrow> n \<le> MAXREP \<Longrightarrow> str n \<notin> noset \<Longrightarrow>
   (\<forall>m. cnt \<le> m \<and> m < n \<longrightarrow> str m \<in> noset) \<Longrightarrow>
   alloc_loop ca k noset cnt = (Some (str n), AList.update k (str n) ca)"
proof (induction "n - cnt" arbitrary: cnt)
  case 0
  then have "cnt = n" by simp
  with 0 show ?case by (simp add: alloc_loop.simps [of ca k noset n] Let_def)
next
  case (Suc d)
  then have lt: "cnt < n" by simp
  with Suc.prems have used: "str cnt \<in> noset" by simp
  from lt Suc.prems have le: "\<not> cnt + 1 > MAXREP" by simp
  have "alloc_loop ca k noset (cnt + 1) = (Some (str n), AList.update k (str n) ca)"
    using Suc.hyps(1) [of "cnt + 1"] Suc.hyps(2) Suc.prems lt by simp
  with used le show ?case
    by (simp add: alloc_loop.simps [of ca k noset cnt] Let_def)
qed

lemma alloc_loop_exhausted:
  "cnt \<le> MAXREP \<Longrightarrow> (\<forall>m. cnt \<le> m \<and> m \<le> MAXREP \<longrightarrow> str m \<in> noset) \<Longrightarrow>
   alloc_loop ca k noset cnt = (Some (str MAXREP), ca)"
proof (induction "MAXREP - cnt" arbitrary: cnt)
  case 0
  then have eq: "cnt = MAXREP" by simp
  with 0 have "str MAXREP \<in> noset" by simp
  with eq show ?case by (simp add: alloc_loop.simps [of ca k noset MAXREP] Let_def)
next
  case (Suc d)
  then have lt: "cnt < MAXREP" by simp
  with Suc.prems have used: "str cnt \<in> noset" by simp
  from lt have le: "\<not> cnt + 1 > MAXREP" by simp
  have "alloc_loop ca k noset (cnt + 1) = (Some (str MAXREP), ca)"
    using Suc.hyps(1) [of "cnt + 1"] Suc.hyps(2) Suc.prems lt by simp
  with used le show ?case
    by (simp add: alloc_loop.simps [of ca k noset cnt] Let_def)
qed

lemma update_absent: "map_of ca k = None \<Longrightarrow> AList.update k v ca = ca @ [(k, v)]"
  by (induction ca) (auto split: if_splits)

lemma digit_val_digit_char: "d < 10 \<Longrightarrow> digit_val (digit_char d) = d"
proof -
  assume "d < 10"
  then have "d \<in> {0, 1, 2, 3, 4, 5, 6, 7, 8, 9}" by auto
  then show ?thesis by (auto simp: digit_val_def digit_char_def)
qed

lemma str_val_str: "str_val (str n) = n"
proof (induction n rule: str.induct)
  case (1 n)
  show ?case
  proof (cases "n < 10")
    case True
    then show ?thesis
      by (simp add: str.simps [of n] str_val_def digit_val_digit_char)
  next
    case False
    with 1 have "str_val (str (n div 10)) = n div 10" by simp
    with False show ?thesis
      by (simp add: str.simps [of n] str_val_def digit_val_digit_char)
  qed
qed

lemma str_inj: "str n = str m \<Longrightarrow> n = m"
  by (metis str_val_str)

lemma full_commalloc_distinct: "distinct (map fst full_commalloc)"
  by (auto simp: full_commalloc_def distinct_map inj_on_def dest: str_inj)

lemma full_commalloc_new: "map_of full_commalloc ''new'' = None"
  by (auto simp: full_commalloc_def map_of_eq_None_iff)

lemma full_commalloc_values: "1 \<le> m \<Longrightarrow> m \<le> MAXREP \<Longrightarrow> str m \<in> snd ` set full_commalloc"
  by (force simp: full_commalloc_def image_iff)

lemma find_communique_exhausted:
  assumes "map_of ca lookup = None"
    and "\<forall>m. 1 \<le> m \<and> m \<le> MAXREP \<longrightarrow> str m \<in> snd ` set ca"
  shows "find_communique ca lookup = (Some (str MAXREP), ca)"
proof -
  have "1 \<le> MAXREP" by (simp add: MAXREP_def)
  then have "alloc_loop ca lookup (snd ` set ca) 1 = (Some (str MAXREP), ca)"
    using assms(2) by (intro alloc_loop_exhausted) auto
  with assms(1) show ?thesis
    by (simp add: find_communique_def scan_commalloc_absent)
qed

lemma find_communique_found:
  "map_of ca lookup = Some v \<Longrightarrow> find_communique ca lookup = (Some v, ca)"
  using scan_commalloc_found [of ca lookup v "{}"]
  by (cases "scan_commalloc ca lookup {}") (simp add: find_communique_def)

lemma find_communique_fresh:
  assumes "map_of ca lookup = None" "1 \<le> n" "n \<le> MAXREP" "str n \<notin> snd ` set ca"
    and "\<forall>m. 1 \<le> m \<and> m < n \<longrightarrow> str m \<in> snd ` set ca"
  shows "find_communique ca lookup = (Some (str n), ca @ [(lookup, str n)])"
proof -
  have "alloc_loop ca lookup (snd ` set ca) 1 = (Some (str n), AList.update lookup (str n) ca)"
    using assms by (intro alloc_loop_free) auto
  with assms(1) show ?thesis
    by (simp add: find_communique_def scan_commalloc_absent update_absent)
qed

lemma first_free:
  assumes "\<exists>n. 1 \<le> n \<and> n \<le> MAXREP \<and> str n \<notin> S"
  shows "\<exists>n. 1 \<le> n \<and> n \<le> MAXREP \<and> str n \<notin> S \<and> (\<forall>m. 1 \<le> m \<and> m < n \<longrightarrow> str m \<in> S)"
proof -
  define P where "P n \<longleftrightarrow> 1 \<le> n \<and> n \<le> MAXREP \<and> str n \<notin> S" for n
  from assms have ex: "\<exists>n. P n" by (simp add: P_def)
  define n where "n = (LEAST n. P n)"
  have Pn: "P n" unfolding n_def using ex by (auto intro: LeastI)
  have "\<And>m. m < n \<Longrightarrow> \<not> P m" unfolding n_def by (rule not_less_Least)
  with Pn show ?thesis unfolding P_def by (intro exI [of _ n]) force
qed

text \<open>
  Claim C5.  \<open>find_communique\<close> is idempotent.  A key that has a number gets that
  number again and the table is left as it is.  A key without a number, when some number
  from 1 to \<open>MAXREP\<close> is free, gets the first free one: every smaller number from 1
  up is held by another key, the number itself is held by no key, and the table gains
  exactly the entry of the new key.  A second call with the same key returns what the
  first call returned and changes nothing more.
\<close>

theorem find_communique_idempotent:
  "(\<forall>v. map_of ca lookup = Some v \<longrightarrow> find_communique ca lookup = (Some v, ca)) \<and>
   (map_of ca lookup = None \<and> (\<exists>n. 1 \<le> n \<and> n \<le> MAXREP \<and> str n \<notin> snd ` set ca) \<longrightarrow>
     (\<exists>n. 1 \<le> n \<and> n \<le> MAXREP \<and> str n \<notin> snd ` set ca \<and>
          (\<forall>m. 1 \<le> m \<and> m < n \<longrightarrow> str m \<in> snd ` set ca) \<and>
          find_communique ca lookup = (Some (str n), ca @ [(lookup, str n)]))) \<and>
   find_communique (snd (find_communique ca lookup)) lookup =
     (fst (find_communique ca lookup), snd (find_communique ca lookup))"
proof (intro conjI allI impI)
  fix v assume "map_of ca lookup = Some v"
  then show "find_communique ca lookup = (Some v, ca)" by (rule find_communique_found)
next
  assume a: "map_of ca lookup = None \<and> (\<exists>n. 1 \<le> n \<and> n \<le> MAXREP \<and> str n \<notin> snd ` set ca)"
  then obtain n where n: "1 \<le> n" "n \<le> MAXREP" "str n \<notin> snd ` set ca"
    "\<forall>m. 1 \<le> m \<and> m < n \<longrightarrow> str m \<in> snd ` set ca"
    using first_free [of "snd ` set ca"] by blast
  with a have "find_communique ca lookup = (Some (str n), ca @ [(lookup, str n)])"
    by (intro find_communique_fresh) auto
  with n show "\<exists>n. 1 \<le> n \<and> n \<le> MAXREP \<and> str n \<notin> snd ` set ca \<and>
          (\<forall>m. 1 \<le> m \<and> m < n \<longrightarrow> str m \<in> snd ` set ca) \<and>
          find_communique ca lookup = (Some (str n), ca @ [(lookup, str n)])" by blast
next
  show "find_communique (snd (find_communique ca lookup)) lookup =
     (fst (find_communique ca lookup), snd (find_communique ca lookup))"
  proof (cases "map_of ca lookup")
    case (Some v)
    then show ?thesis by (simp add: find_communique_found)
  next
    case None
    show ?thesis
    proof (cases "\<exists>n. 1 \<le> n \<and> n \<le> MAXREP \<and> str n \<notin> snd ` set ca")
      case True
      then obtain n where n: "1 \<le> n" "n \<le> MAXREP" "str n \<notin> snd ` set ca"
        "\<forall>m. 1 \<le> m \<and> m < n \<longrightarrow> str m \<in> snd ` set ca"
        using first_free [of "snd ` set ca"] by blast
      with None have r: "find_communique ca lookup = (Some (str n), ca @ [(lookup, str n)])"
        by (intro find_communique_fresh) auto
      from None have "map_of (ca @ [(lookup, str n)]) lookup = Some (str n)"
        by (simp add: map_add_def)
      then show ?thesis using r by (simp add: find_communique_found)
    next
      case False
      with None have "find_communique ca lookup = (Some (str MAXREP), ca)"
        by (intro find_communique_exhausted) auto
      then show ?thesis by simp
    qed
  qed
qed

theorem find_communique_idempotent_witness:
  "map_of [(''resultE1E2'', ''1''), (''startE3'', ''3'')] ''resultE4'' = None \<and>
   (\<exists>n. 1 \<le> n \<and> n \<le> MAXREP \<and> str n \<notin> snd ` set [(''resultE1E2'', ''1''), (''startE3'', ''3'')]) \<and>
   find_communique [(''resultE1E2'', ''1''), (''startE3'', ''3'')] ''resultE1E2'' =
     (Some ''1'', [(''resultE1E2'', ''1''), (''startE3'', ''3'')]) \<and>
   (\<exists>n. str n \<notin> snd ` set [(''resultE1E2'', ''1''), (''startE3'', ''3'')] \<and>
     find_communique [(''resultE1E2'', ''1''), (''startE3'', ''3'')] ''resultE4'' =
     (Some (str n), [(''resultE1E2'', ''1''), (''startE3'', ''3'')] @ [(''resultE4'', str n)]))"
proof -
  let ?ca = "[(''resultE1E2'', ''1''), (''startE3'', ''3'')]"
  have h1: "map_of ?ca ''resultE4'' = None" by simp
  have h0: "map_of ?ca ''resultE1E2'' = Some ''1''" by simp
  have "str 2 = ''2''" by (simp add: str.simps digit_char_def)
  then have "str 2 \<notin> snd ` set ?ca" by simp
  then have h2: "\<exists>n. 1 \<le> n \<and> n \<le> MAXREP \<and> str n \<notin> snd ` set ?ca"
    by (intro exI [of _ 2]) (simp add: MAXREP_def)
  from h0 find_communique_idempotent [of ?ca "''resultE1E2''"]
  have c1: "find_communique ?ca ''resultE1E2'' = (Some ''1'', ?ca)" by simp
  from h1 h2 find_communique_idempotent [of ?ca "''resultE4''"]
  obtain n where "str n \<notin> snd ` set ?ca"
    "find_communique ?ca ''resultE4'' = (Some (str n), ?ca @ [(''resultE4'', str n)])"
    by meson
  then have c2: "\<exists>n. str n \<notin> snd ` set ?ca \<and>
     find_communique ?ca ''resultE4'' = (Some (str n), ?ca @ [(''resultE4'', str n)])"
    by (intro exI [of _ n] conjI)
  from h1 h2 c1 c2 show ?thesis by (intro conjI)
qed

text \<open>
  Claim C6.  With every number from 1 to \<open>MAXREP\<close> taken, the loop gives up after
  trying \<open>MAXREP\<close>, but \<open>ret\<close> still holds that last numeral: the call for a
  new key returns \<open>''10000''\<close>, the number of the report \<open>''report10000''\<close>, and
  not the value \<open>None\<close> that the caller tests for.
\<close>

theorem find_communique_exhausted_returns_assigned:
  "distinct (map fst full_commalloc) \<and>
   map_of full_commalloc ''new'' = None \<and>
   map_of full_commalloc ''report10000'' = Some ''10000'' \<and>
   find_communique full_commalloc ''new'' = (Some ''10000'', full_commalloc)"
proof -
  have s: "str MAXREP = ''10000''"
    by (simp add: MAXREP_def str.simps digit_char_def)
  have r: "find_communique full_commalloc ''new'' = (Some (str MAXREP), full_commalloc)"
    using full_commalloc_new full_commalloc_values by (intro find_communique_exhausted) auto
  have "1 \<le> MAXREP" by (simp add: MAXREP_def)
  then have "MAXREP \<in> set [1..<Suc MAXREP]" by simp
  then have "(\<lambda>n. (''report'' @ str n, str n)) MAXREP
      \<in> (\<lambda>n. (''report'' @ str n, str n)) ` set [1..<Suc MAXREP]" by (rule imageI)
  then have "(''report'' @ str MAXREP, str MAXREP) \<in> set full_commalloc"
    unfolding full_commalloc_def set_map .
  then have "map_of full_commalloc (''report'' @ str MAXREP) = Some (str MAXREP)"
    using full_commalloc_distinct by simp
  with r show ?thesis
    using full_commalloc_distinct full_commalloc_new by (simp add: s)
qed

section \<open>Events and the event directory\<close>

text \<open>
  An event of the meet, with the columns this development reads.  The directory
  \<open>self.edb\<close> looks a column up by the first four letters of its name, so
  \<open>ev['depe']\<close> and \<open>ev['depend']\<close> are the same column, as are \<open>'dirt'\<close> and
  \<open>'dirty'\<close>, \<open>'refe'\<close> and \<open>'reference'\<close>, \<open>'auto'\<close> (the autospec), and
  \<open>'resu'\<close> and \<open>'result'\<close>; \<open>etype\<close> is the column \<open>'type'\<close>.
\<close>

record event =
  evid :: string
  etype :: string
  depend :: string
  auto :: string
  reference :: string
  dirty :: bool
  result :: bool

text \<open>
  The directory holds the events in program order, each under its own number, and no
  number twice.  \<open>evno in self.edb\<close> and \<open>self.edb[evno]\<close> are \<open>edb_get\<close>.  The
  events are objects: \<open>ev['dirty'] = True\<close> changes the event that the directory holds
  under that number, which \<open>set_dirty\<close> writes out.
\<close>

type_synonym eventdb = "event list"

definition edb_get :: "eventdb \<Rightarrow> string \<Rightarrow> event option" where
  "edb_get edb evno = find (\<lambda>e. evid e = evno) edb"

definition is_dirty :: "eventdb \<Rightarrow> string \<Rightarrow> bool" where
  "is_dirty edb evno = (case edb_get edb evno of Some ev \<Rightarrow> dirty ev | None \<Rightarrow> False)"

definition set_dirty :: "eventdb \<Rightarrow> string \<Rightarrow> bool \<Rightarrow> eventdb" where
  "set_dirty edb evno b = map (\<lambda>e. if evid e = evno then e\<lparr>dirty := b\<rparr> else e) edb"

subsection \<open>Python's string operations\<close>

text \<open>
  \<open>s.split()\<close> cuts at runs of whitespace and gives no empty word.  The whitespace
  among the characters up to \<open>0xFF\<close>: tab, line feed, vertical tab, form feed,
  carriage return, the four separators \<open>0x1C\<close> to \<open>0x1F\<close>, the space, next line
  (\<open>0x85\<close>) and the no-break space (\<open>0xA0\<close>).
\<close>

definition is_space :: "char \<Rightarrow> bool" where
  "is_space c \<longleftrightarrow> c \<in> set [CHR 0x09, CHR 0x0A, CHR 0x0B, CHR 0x0C, CHR 0x0D,
     CHR 0x1C, CHR 0x1D, CHR 0x1E, CHR 0x1F, CHR '' '', CHR 0x85, CHR 0xA0]"

fun split_ws_from :: "string \<Rightarrow> string \<Rightarrow> string list" where
  "split_ws_from cur [] = (if cur = [] then [] else [cur])"
| "split_ws_from cur (c # cs) =
     (if is_space c then (if cur = [] then split_ws_from [] cs else cur # split_ws_from [] cs)
      else split_ws_from (cur @ [c]) cs)"

definition split_ws :: "string \<Rightarrow> string list" where
  "split_ws s = split_ws_from [] s"

section \<open>Dirty events (\<open>check_depends_dirty\<close>)\<close>

text \<open>
  \<open>check_depends_dirty\<close> returns the answer and the directory with the flags it has
  set.  \<open>checked\<close> is the set handed down by the caller (\<open>None\<close> is the empty set);
  the callee works on its own copy \<open>checks\<close>, so what it adds is not seen by the
  caller.  \<open>scan_dependencies\<close> is the loop \<open>for dev in ev['depe'].split()\<close> of the
  event \<open>evno\<close>, over the dependencies still to visit: it leaves when the event is
  dirty, skips a dependency that is in \<open>checks\<close>, and otherwise asks for the
  dependency, adds it to \<open>checks\<close> and marks the event when the answer is yes.
\<close>

function check_depends_dirty :: "eventdb \<Rightarrow> string \<Rightarrow> string set \<Rightarrow> bool \<times> eventdb"
  and scan_dependencies :: "eventdb \<Rightarrow> string \<Rightarrow> string list \<Rightarrow> string set \<Rightarrow> eventdb"
where
  "check_depends_dirty edb evno checked =
     (let checks = insert evno checked in
      case edb_get edb evno of
        None \<Rightarrow> (False, edb)
      | Some ev \<Rightarrow>
          let edb' = scan_dependencies edb evno (split_ws (depend ev)) checks
          in (is_dirty edb' evno, edb'))"
| "scan_dependencies edb evno [] checks = edb"
| "scan_dependencies edb evno (dev # devs) checks =
     (if is_dirty edb evno then edb
      else if dev \<notin> checks then
        (case check_depends_dirty edb dev checks of
           (dep, edb1) \<Rightarrow>
             scan_dependencies (if dep then set_dirty edb1 evno True else edb1) evno devs
               (insert dev checks))
      else scan_dependencies edb evno devs checks)"
  by pat_completeness auto

text \<open>
  The call for a dependency is made on the directory that the calls before it have
  left, so the termination of the loop rests on a property of the function itself: a
  call leaves the numbers of the directory as they are.  Each call then adds an event of
  the directory to the set that it hands down, or is the last one of its branch.
\<close>

lemma map_evid_set_dirty: "map evid (set_dirty edb evno b) = map evid edb"
  by (simp add: set_dirty_def)

lemma dom_keeps_ids:
  "check_depends_dirty_scan_dependencies_dom (Inl (edb, evno, checked)) \<Longrightarrow>
     map evid (snd (check_depends_dirty edb evno checked)) = map evid edb"
  "check_depends_dirty_scan_dependencies_dom (Inr (edb, evno, devs, checks)) \<Longrightarrow>
     map evid (scan_dependencies edb evno devs checks) = map evid edb"
proof (induction edb evno checked and edb evno devs checks
    rule: check_depends_dirty_scan_dependencies.pinduct)
  case (1 edb evno checked)
  then show ?case
    by (simp add: check_depends_dirty.psimps Let_def split: option.splits)
next
  case (2 edb evno checks)
  then show ?case by (simp add: scan_dependencies.psimps)
next
  case (3 edb evno dev devs checks)
  then show ?case
    by (auto simp: scan_dependencies.psimps map_evid_set_dirty split: prod.splits)
qed

lemma edb_get_SomeD:
  "edb_get edb evno = Some ev \<Longrightarrow> ev \<in> set edb \<and> evid ev = evno"
  unfolding edb_get_def by (auto simp: find_Some_iff)

lemma edb_get_None_iff: "edb_get edb evno = None \<longleftrightarrow> evno \<notin> evid ` set edb"
  unfolding edb_get_def by (auto simp: find_None_iff)

lemma card_diff_insert_less:
  "finite A \<Longrightarrow> x \<in> A \<Longrightarrow> x \<notin> B \<Longrightarrow> card (A - insert x B) < card (A - B)"
  by (intro psubset_card_mono) auto

lemma card_diff_insert_le:
  "finite A \<Longrightarrow> card (A - insert x B) \<le> card (A - B)"
  by (intro card_mono) auto

termination check_depends_dirty
proof (relation "inv_image (less_than <*lex*> less_than)
     (case_sum
        (\<lambda>(edb, evno, checked).
           (if evno \<in> evid ` set edb then 2 * card (evid ` set edb - insert evno checked) + 2 else 0, 0))
        (\<lambda>(edb, evno, devs, checks).
           (2 * card (evid ` set edb - checks) + 1, length devs)))", goal_cases)
  case 1
  show ?case by (intro wf_inv_image wf_lex_prod wf_less_than)
next
  case (2 edb evno checked checks ev)
  then show ?case by (auto dest: edb_get_SomeD)
next
  case (3 edb evno dev devs checks)
  have "dev \<in> evid ` set edb \<Longrightarrow>
      card (evid ` set edb - insert dev checks) < card (evid ` set edb - checks)"
    using 3 by (intro card_diff_insert_less) auto
  then show ?case by auto
next
  case (4 edb evno dev devs checks x y)
  from 4 have "map evid (snd (check_depends_dirty edb dev checks)) = map evid edb"
    by (intro dom_keeps_ids)
  with 4 have "map evid y = map evid edb" by (metis snd_conv)
  then have ids: "evid ` set y = evid ` set edb" "evid ` set (set_dirty y evno True) = evid ` set edb"
    by (metis set_map, metis set_map map_evid_set_dirty)
  have "card (evid ` set edb - insert dev checks) \<le> card (evid ` set edb - checks)"
    by (intro card_diff_insert_le) simp
  with ids show ?case by auto
next
  case (5 edb evno dev devs checks)
  then show ?case by simp
qed

subsection \<open>Dependencies as a graph\<close>

text \<open>
  \<open>dep_rel\<close> holds the pair of an event of the directory and each number that its
  \<open>depend\<close> column names.  \<open>dirty_reach\<close>: the event or one that it names, directly
  or through others, has its flag set.  \<open>sound_ext\<close> and \<open>closed_clean\<close> are the two
  invariants of the traversal: a later directory has the same graph and marks only
  events that reach a flag of the first one; a set of unmarked events all of whose
  dependencies are in the set or among the numbers \<open>K\<close> that were not visited.
\<close>

definition dep_rel :: "eventdb \<Rightarrow> (string \<times> string) set" where
  "dep_rel edb = {(a, b). \<exists>ev. edb_get edb a = Some ev \<and> b \<in> set (split_ws (depend ev))}"

definition dirty_reach :: "eventdb \<Rightarrow> string \<Rightarrow> bool" where
  "dirty_reach edb e \<longleftrightarrow> (\<exists>t. (e, t) \<in> (dep_rel edb)\<^sup>* \<and> is_dirty edb t)"

definition sound_ext :: "eventdb \<Rightarrow> eventdb \<Rightarrow> bool" where
  "sound_ext edb edb' \<longleftrightarrow>
     dep_rel edb' = dep_rel edb \<and> (\<forall>t. is_dirty edb' t \<longrightarrow> dirty_reach edb t)"

definition closed_clean :: "eventdb \<Rightarrow> string set \<Rightarrow> string set \<Rightarrow> bool" where
  "closed_clean edb S K \<longleftrightarrow>
     (\<forall>a\<in>S. \<not> is_dirty edb a \<and> (\<forall>b. (a, b) \<in> dep_rel edb \<longrightarrow> b \<in> S \<union> K))"

text \<open>The chain of three events: \<open>E3\<close> names \<open>E2\<close>, \<open>E2\<close> names \<open>E1\<close>, and only \<open>E1\<close> is marked.\<close>

definition mk_event :: "string \<Rightarrow> string \<Rightarrow> bool \<Rightarrow> event" where
  "mk_event evno deps d =
     \<lparr>evid = evno, etype = ''sprint'', depend = deps, auto = '''', reference = '''',
      dirty = d, result = True\<rparr>"

definition chain_edb :: eventdb where
  "chain_edb = [mk_event ''E1'' '''' True, mk_event ''E2'' ''E1'' False, mk_event ''E3'' ''E2'' False]"

lemma edb_get_set_dirty:
  "edb_get (set_dirty edb x b) y =
     map_option (\<lambda>e. if evid e = x then e\<lparr>dirty := b\<rparr> else e) (edb_get edb y)"
  unfolding edb_get_def set_dirty_def by (induction edb) auto

lemma dep_rel_set_dirty: "dep_rel (set_dirty edb x b) = dep_rel edb"
proof -
  have "(\<exists>ev. edb_get (set_dirty edb x b) a = Some ev \<and> d \<in> set (split_ws (depend ev))) \<longleftrightarrow>
        (\<exists>ev. edb_get edb a = Some ev \<and> d \<in> set (split_ws (depend ev)))" for a d
    by (cases "edb_get edb a") (auto simp: edb_get_set_dirty)
  then show ?thesis unfolding dep_rel_def by simp
qed

lemma is_dirty_set_dirty:
  "is_dirty (set_dirty edb x True) y \<longleftrightarrow> is_dirty edb y \<or> (y = x \<and> edb_get edb x \<noteq> None)"
  unfolding is_dirty_def by (auto simp: edb_get_set_dirty dest: edb_get_SomeD split: option.splits)

lemma check_returns_flag:
  "fst (check_depends_dirty edb evno checked) = is_dirty (snd (check_depends_dirty edb evno checked)) evno"
  by (simp add: Let_def is_dirty_def split: option.splits)

lemma scan_dirty_stops: "is_dirty edb evno \<Longrightarrow> scan_dependencies edb evno devs checks = edb"
  by (cases devs) simp_all

lemma sound_ext_refl: "sound_ext edb edb"
  unfolding sound_ext_def dirty_reach_def by auto

lemma dirty_reach_step:
  "(a, b) \<in> dep_rel edb \<Longrightarrow> dirty_reach edb b \<Longrightarrow> dirty_reach edb a"
  unfolding dirty_reach_def by (meson converse_rtrancl_into_rtrancl)

lemma sound_ext_trans:
  assumes "sound_ext a b" "sound_ext b c"
  shows "sound_ext a c"
proof -
  have g: "dep_rel c = dep_rel a" "dep_rel b = dep_rel a"
    using assms by (simp_all add: sound_ext_def)
  have "dirty_reach a t" if "is_dirty c t" for t
  proof -
    from that assms(2) obtain u where u: "(t, u) \<in> (dep_rel a)\<^sup>*" "is_dirty b u"
      unfolding sound_ext_def dirty_reach_def g by blast
    with assms(1) obtain w where "(u, w) \<in> (dep_rel a)\<^sup>*" "is_dirty a w"
      unfolding sound_ext_def dirty_reach_def by blast
    with u show ?thesis unfolding dirty_reach_def by (meson rtrancl_trans)
  qed
  with g show ?thesis by (simp add: sound_ext_def)
qed

lemma sound_ext_set_dirty:
  assumes "sound_ext edb edb1" "dirty_reach edb evno"
  shows "sound_ext edb (set_dirty edb1 evno True)"
  using assms unfolding sound_ext_def by (auto simp: dep_rel_set_dirty is_dirty_set_dirty)

lemma check_scan_sound:
  "sound_ext edb (snd (check_depends_dirty edb evno checked))"
  "(\<forall>d\<in>set devs. (evno, d) \<in> dep_rel edb) \<Longrightarrow>
     sound_ext edb (scan_dependencies edb evno devs checks)"
proof (induction edb evno checked and edb evno devs checks
    rule: check_depends_dirty_scan_dependencies.induct)
  case (1 edb evno checked)
  show ?case
  proof (cases "edb_get edb evno")
    case None
    then show ?thesis by (simp add: sound_ext_refl)
  next
    case (Some ev)
    have "\<forall>d\<in>set (split_ws (depend ev)). (evno, d) \<in> dep_rel edb"
      using Some by (auto simp: dep_rel_def)
    with 1 Some show ?thesis by (simp add: Let_def)
  qed
next
  case (2 edb evno checks)
  show ?case by (simp add: sound_ext_refl)
next
  case (3 edb evno dev devs checks)
  show ?case
  proof (cases "is_dirty edb evno")
    case True
    then show ?thesis by (simp add: sound_ext_refl)
  next
    case nd: False
    show ?thesis
    proof (cases "dev \<in> checks")
      case True
      with nd 3 show ?thesis by simp
    next
      case False
      obtain dep edb1 where c: "check_depends_dirty edb dev checks = (dep, edb1)"
        by (cases "check_depends_dirty edb dev checks")
      let ?edb2 = "if dep then set_dirty edb1 evno True else edb1"
      from 3(1) [OF nd False] c have s1: "sound_ext edb edb1" by simp
      have s2: "sound_ext edb ?edb2"
      proof (cases dep)
        case True
        with c have "is_dirty edb1 dev"
          using check_returns_flag [of edb dev checks] by simp
        with s1 have "dirty_reach edb dev" by (simp add: sound_ext_def)
        moreover from 3(4) have "(evno, dev) \<in> dep_rel edb" by simp
        ultimately have "dirty_reach edb evno" by (rule dirty_reach_step [rotated])
        with s1 True show ?thesis by (simp add: sound_ext_set_dirty)
      next
        case False
        with s1 show ?thesis by simp
      qed
      then have "dep_rel ?edb2 = dep_rel edb" by (simp add: sound_ext_def)
      with 3(4) have "\<forall>d\<in>set devs. (evno, d) \<in> dep_rel ?edb2" by simp
      with 3(2) [OF nd False c [symmetric]] have
        "sound_ext ?edb2 (scan_dependencies ?edb2 evno devs (insert dev checks))" by simp
      with s2 have "sound_ext edb (scan_dependencies ?edb2 evno devs (insert dev checks))"
        by (rule sound_ext_trans)
      with nd False c show ?thesis by simp
    qed
  qed
qed

lemma check_scan_ids:
  "map evid (snd (check_depends_dirty edb evno checked)) = map evid edb"
  "map evid (scan_dependencies edb evno devs checks) = map evid edb"
proof (induction edb evno checked and edb evno devs checks
    rule: check_depends_dirty_scan_dependencies.induct)
  case (1 edb evno checked)
  then show ?case by (simp add: Let_def split: option.splits)
next
  case (2 edb evno checks)
  then show ?case by simp
next
  case (3 edb evno dev devs checks)
  then show ?case by (auto simp: map_evid_set_dirty split: prod.splits)
qed

lemma edb_get_None_ids:
  "map evid edb' = map evid edb \<Longrightarrow> edb_get edb' v = None \<longleftrightarrow> edb_get edb v = None"
  by (metis edb_get_None_iff set_map)

lemma check_scan_unchanged:
  "\<not> fst (check_depends_dirty edb evno checked) \<Longrightarrow>
     snd (check_depends_dirty edb evno checked) = edb"
  "edb_get edb evno \<noteq> None \<Longrightarrow> \<not> is_dirty (scan_dependencies edb evno devs checks) evno \<Longrightarrow>
     scan_dependencies edb evno devs checks = edb"
proof (induction edb evno checked and edb evno devs checks
    rule: check_depends_dirty_scan_dependencies.induct)
  case (1 edb evno checked)
  show ?case
  proof (cases "edb_get edb evno")
    case None
    then show ?thesis by simp
  next
    case (Some ev)
    with 1 show ?thesis by (simp add: Let_def)
  qed
next
  case (2 edb evno checks)
  show ?case by simp
next
  case (3 edb evno dev devs checks)
  show ?case
  proof (cases "is_dirty edb evno")
    case True
    then show ?thesis by simp
  next
    case nd: False
    show ?thesis
    proof (cases "dev \<in> checks")
      case True
      with nd 3 show ?thesis by simp
    next
      case False
      obtain dep edb1 where c: "check_depends_dirty edb dev checks = (dep, edb1)"
        by (cases "check_depends_dirty edb dev checks")
      have ids: "map evid edb1 = map evid edb"
        using check_scan_ids(1) [of edb dev checks] c by simp
      have ex1: "edb_get edb1 evno \<noteq> None"
        using 3(4) edb_get_None_ids [OF ids, of evno] by simp
      have "\<not> dep"
      proof
        assume dep
        have "is_dirty (set_dirty edb1 evno True) evno"
          using ex1 by (simp add: is_dirty_set_dirty)
        then have "scan_dependencies (set_dirty edb1 evno True) evno devs (insert dev checks)
            = set_dirty edb1 evno True" by (rule scan_dirty_stops)
        with nd False c \<open>dep\<close> have
          "scan_dependencies edb evno (dev # devs) checks = set_dirty edb1 evno True" by simp
        with 3(5) ex1 show False by (simp add: is_dirty_set_dirty)
      qed
      with 3(1) [OF nd False] c have e1: "edb1 = edb" by simp
      from nd False c \<open>\<not> dep\<close> e1 have eq:
        "scan_dependencies edb evno (dev # devs) checks =
         scan_dependencies edb evno devs (insert dev checks)" by simp
      from 3(2) [OF nd False c [symmetric]] \<open>\<not> dep\<close> e1 3(4) 3(5) eq
      show ?thesis by simp
    qed
  qed
qed

lemma closed_clean_union:
  "closed_clean edb T K0 \<Longrightarrow> closed_clean edb S checks \<Longrightarrow> checks \<subseteq> T \<union> K0 \<Longrightarrow>
     closed_clean edb (T \<union> S) K0"
  unfolding closed_clean_def by blast

lemma check_scan_closed:
  "\<not> fst (check_depends_dirty edb evno checked) \<Longrightarrow>
     \<exists>S. evno \<in> S \<and> closed_clean edb S checked"
  "edb_get edb evno \<noteq> None \<Longrightarrow> \<not> is_dirty (scan_dependencies edb evno devs checks) evno \<Longrightarrow>
     closed_clean edb T K0 \<Longrightarrow> checks \<subseteq> T \<union> K0 \<Longrightarrow>
     \<exists>T'. T \<subseteq> T' \<and> set devs \<subseteq> T' \<union> K0 \<and> closed_clean edb T' K0"
proof (induction edb evno checked and edb evno devs checks arbitrary: and T K0
    rule: check_depends_dirty_scan_dependencies.induct)
  case (1 edb evno checked)
  show ?case
  proof (cases "edb_get edb evno")
    case None
    then have "closed_clean edb {evno} checked"
      by (simp add: closed_clean_def is_dirty_def dep_rel_def)
    then show ?thesis by blast
  next
    case (Some ev)
    let ?devs = "split_ws (depend ev)"
    let ?K0 = "insert evno checked"
    have ex: "edb_get edb evno \<noteq> None" using Some by simp
    from 1(2) Some have nd': "\<not> is_dirty (scan_dependencies edb evno ?devs ?K0) evno"
      by (simp add: Let_def)
    with ex have same: "scan_dependencies edb evno ?devs ?K0 = edb"
      by (rule check_scan_unchanged(2))
    with nd' have nd: "\<not> is_dirty edb evno" by simp
    have cc: "closed_clean edb {} ?K0" by (simp add: closed_clean_def)
    have sub: "?K0 \<subseteq> {} \<union> ?K0" by simp
    from 1(1) [OF refl Some ex nd' cc sub] obtain T' where
      T': "set ?devs \<subseteq> T' \<union> ?K0" "closed_clean edb T' ?K0" by auto
    have succ: "b \<in> set ?devs" if "(evno, b) \<in> dep_rel edb" for b
      using that Some by (auto simp: dep_rel_def)
    have "closed_clean edb (insert evno T') checked"
      unfolding closed_clean_def
    proof (intro ballI conjI allI impI)
      fix a assume "a \<in> insert evno T'"
      then show "\<not> is_dirty edb a" using nd T'(2) by (auto simp: closed_clean_def)
    next
      fix a b assume a: "a \<in> insert evno T'" and e: "(a, b) \<in> dep_rel edb"
      show "b \<in> insert evno T' \<union> checked"
      proof (cases "a = evno")
        case True
        with e succ T'(1) show ?thesis by auto
      next
        case False
        with a e T'(2) show ?thesis by (auto simp: closed_clean_def)
      qed
    qed
    then show ?thesis by blast
  qed
next
  case (2 edb evno checks)
  then show ?case by auto
next
  case (3 edb evno dev devs checks)
  have nd: "\<not> is_dirty edb evno"
    using 3(5) scan_dirty_stops [of edb evno "dev # devs" checks] by auto
  show ?case
  proof (cases "dev \<in> checks")
    case True
    with nd have eq: "scan_dependencies edb evno (dev # devs) checks =
        scan_dependencies edb evno devs checks" by simp
    from 3(3) [OF nd _ 3(4) _ 3(6) 3(7)] True 3(5) eq obtain T' where
      "T \<subseteq> T'" "set devs \<subseteq> T' \<union> K0" "closed_clean edb T' K0" by auto
    with True 3(7) show ?thesis by (intro exI [of _ T']) auto
  next
    case False
    obtain dep edb1 where c: "check_depends_dirty edb dev checks = (dep, edb1)"
      by (cases "check_depends_dirty edb dev checks")
    have same: "scan_dependencies edb evno (dev # devs) checks = edb"
      using 3(4) 3(5) by (rule check_scan_unchanged(2))
    have ids: "map evid edb1 = map evid edb"
      using check_scan_ids(1) [of edb dev checks] c by simp
    have ex1: "edb_get edb1 evno \<noteq> None"
      using 3(4) edb_get_None_ids [OF ids, of evno] by simp
    have "\<not> dep"
    proof
      assume dep
      have "is_dirty (set_dirty edb1 evno True) evno"
        using ex1 by (simp add: is_dirty_set_dirty)
      then have "scan_dependencies (set_dirty edb1 evno True) evno devs (insert dev checks)
          = set_dirty edb1 evno True" by (rule scan_dirty_stops)
      with nd False c \<open>dep\<close> have
        "scan_dependencies edb evno (dev # devs) checks = set_dirty edb1 evno True" by simp
      with 3(5) ex1 show False by (simp add: is_dirty_set_dirty)
    qed
    with check_scan_unchanged(1) [of edb dev checks] c have e1: "edb1 = edb" by simp
    from 3(1) [OF nd False] c \<open>\<not> dep\<close> obtain S where
      S: "dev \<in> S" "closed_clean edb S checks" by auto
    have cl: "closed_clean edb (T \<union> S) K0"
      using 3(6) S(2) 3(7) by (rule closed_clean_union)
    have sub: "insert dev checks \<subseteq> (T \<union> S) \<union> K0" using S(1) 3(7) by auto
    from nd False c \<open>\<not> dep\<close> e1 have eq:
      "scan_dependencies edb evno (dev # devs) checks =
       scan_dependencies edb evno devs (insert dev checks)" by simp
    with 3(5) have nd2: "\<not> is_dirty (scan_dependencies edb evno devs (insert dev checks)) evno"
      by simp
    from 3(2) [OF nd False c [symmetric], of "T \<union> S" K0] \<open>\<not> dep\<close> e1 3(4) nd2 cl sub
    obtain T' where "T \<union> S \<subseteq> T'" "set devs \<subseteq> T' \<union> K0" "closed_clean edb T' K0" by auto
    with S(1) show ?thesis by (intro exI [of _ T']) auto
  qed
qed

lemma closed_clean_reach:
  assumes "closed_clean edb S {}" "e \<in> S" "(e, t) \<in> (dep_rel edb)\<^sup>*"
  shows "t \<in> S"
  using assms(3,1,2) by (induction rule: rtrancl_induct) (auto simp: closed_clean_def)

lemma check_depends_dirty_iff:
  "fst (check_depends_dirty edb e {}) = dirty_reach edb e"
proof (cases "fst (check_depends_dirty edb e {})")
  case True
  then have "is_dirty (snd (check_depends_dirty edb e {})) e"
    using check_returns_flag [of edb e "{}"] by simp
  with check_scan_sound(1) [of edb e "{}"] have "dirty_reach edb e"
    by (simp add: sound_ext_def)
  with True show ?thesis by simp
next
  case False
  then obtain S where S: "e \<in> S" "closed_clean edb S {}"
    using check_scan_closed(1) [of edb e "{}"] by auto
  have "\<not> dirty_reach edb e"
    unfolding dirty_reach_def
  proof (intro notI, elim exE conjE)
    fix t assume "(e, t) \<in> (dep_rel edb)\<^sup>*" "is_dirty edb t"
    with closed_clean_reach [OF S(2) S(1)] S(2) show False
      by (auto simp: closed_clean_def)
  qed
  with False show ?thesis by simp
qed

lemma is_dirty_mono_set: "is_dirty edb t \<Longrightarrow> is_dirty (set_dirty edb x True) t"
  by (simp add: is_dirty_set_dirty)

lemma check_scan_keeps_dirty:
  "is_dirty edb t \<Longrightarrow> is_dirty (snd (check_depends_dirty edb evno checked)) t"
  "is_dirty edb t \<Longrightarrow> is_dirty (scan_dependencies edb evno devs checks) t"
proof (induction edb evno checked and edb evno devs checks
    rule: check_depends_dirty_scan_dependencies.induct)
  case (1 edb evno checked)
  then show ?case by (simp add: Let_def split: option.splits)
next
  case (2 edb evno checks)
  then show ?case by simp
next
  case (3 edb evno dev devs checks)
  then show ?case by (auto simp: is_dirty_mono_set split: prod.splits)
qed

lemma scan_sets_flag:
  assumes "edb_get edb v \<noteq> None" "\<not> is_dirty edb v" "dev \<notin> checks"
    and "fst (check_depends_dirty edb dev checks)"
  shows "is_dirty (scan_dependencies edb v (dev # devs) checks) v"
proof -
  obtain dep edb1 where c: "check_depends_dirty edb dev checks = (dep, edb1)"
    by (cases "check_depends_dirty edb dev checks")
  with assms(4) have dep by simp
  have "map evid edb1 = map evid edb"
    using check_scan_ids(1) [of edb dev checks] c by simp
  then have "edb_get edb1 v \<noteq> None"
    using assms(1) edb_get_None_ids [of edb1 edb v] by simp
  then have d: "is_dirty (set_dirty edb1 v True) v" by (simp add: is_dirty_set_dirty)
  then have "scan_dependencies (set_dirty edb1 v True) v devs (insert dev checks)
      = set_dirty edb1 v True" by (rule scan_dirty_stops)
  with assms(2,3) c \<open>dep\<close> d show ?thesis by simp
qed

lemma chain_propagates:
  assumes e1: "edb_get edb e1 = Some ev1" "dirty ev1"
    and e2: "edb_get edb e2 = Some ev2" "\<not> dirty ev2" "split_ws (depend ev2) = [e1]"
    and e3: "edb_get edb e3 = Some ev3" "\<not> dirty ev3" "split_ws (depend ev3) = [e2]"
    and ne: "e1 \<noteq> e2" "e1 \<noteq> e3" "e2 \<noteq> e3"
  shows "check_depends_dirty edb e3 {} = (True, set_dirty (set_dirty edb e2 True) e3 True)"
proof -
  have d1: "is_dirty edb e1" "\<not> is_dirty edb e2" "\<not> is_dirty edb e3"
    using e1 e2 e3 by (simp_all add: is_dirty_def)
  have c1: "check_depends_dirty edb e1 {e2, e3} = (True, edb)"
    using e1 d1(1) by (simp add: scan_dirty_stops)
  let ?A = "set_dirty edb e2 True"
  have s2: "scan_dependencies edb e2 [e1] {e2, e3} = ?A"
    using d1(2) ne c1 by simp
  have dA: "is_dirty ?A e2" "\<not> is_dirty ?A e3"
    using e2 d1(3) ne by (simp_all add: is_dirty_set_dirty)
  have c2: "check_depends_dirty edb e2 {e3} = (True, ?A)"
    using e2 s2 dA(1) by (simp add: insert_commute)
  let ?B = "set_dirty ?A e3 True"
  have s3: "scan_dependencies edb e3 [e2] {e3} = ?B"
    using d1(3) ne c2 by simp
  have "edb_get ?A e3 \<noteq> None" using e3 by (simp add: edb_get_set_dirty)
  then have dB: "is_dirty ?B e3" by (simp add: is_dirty_set_dirty)
  show ?thesis using e3 s3 dB by simp
qed

declare check_depends_dirty.simps [simp del]

text \<open>
  Claim C1.  Called for an event \<open>e\<close> with no set handed down,
  \<open>check_depends_dirty\<close> answers yes exactly when the flag of \<open>e\<close> is set or an
  event named in its dependency list, directly or through other events, has its flag
  set.  The answer is the flag of \<open>e\<close> afterwards; no flag is cleared and no event is
  added or dropped; and in the loop, a dependency that is found dirty sets the flag of
  the event being scanned.  For the chain in which \<open>e3\<close> names \<open>e2\<close>, \<open>e2\<close>
  names \<open>e1\<close> and of the three only \<open>e1\<close> is marked, the call for \<open>e3\<close> answers
  yes and leaves \<open>e2\<close> and \<open>e3\<close> marked.
\<close>

theorem check_depends_dirty_propagates:
  "(fst (check_depends_dirty edb e {}) \<longleftrightarrow>
      is_dirty edb e \<or> (\<exists>t. (e, t) \<in> (dep_rel edb)\<^sup>+ \<and> is_dirty edb t)) \<and>
   fst (check_depends_dirty edb e {}) = is_dirty (snd (check_depends_dirty edb e {})) e \<and>
   (\<forall>t. is_dirty edb t \<longrightarrow> is_dirty (snd (check_depends_dirty edb e {})) t) \<and>
   map evid (snd (check_depends_dirty edb e {})) = map evid edb \<and>
   (edb_get edb e \<noteq> None \<and> \<not> is_dirty edb e \<and> dev \<notin> checks \<and>
      fst (check_depends_dirty edb dev checks) \<longrightarrow>
      is_dirty (scan_dependencies edb e (dev # devs) checks) e) \<and>
   (edb_get edb e1 = Some ev1 \<and> dirty ev1 \<and>
    edb_get edb e2 = Some ev2 \<and> \<not> dirty ev2 \<and> split_ws (depend ev2) = [e1] \<and>
    edb_get edb e3 = Some ev3 \<and> \<not> dirty ev3 \<and> split_ws (depend ev3) = [e2] \<and>
    e1 \<noteq> e2 \<and> e1 \<noteq> e3 \<and> e2 \<noteq> e3 \<longrightarrow>
      fst (check_depends_dirty edb e3 {}) \<and>
      is_dirty (snd (check_depends_dirty edb e3 {})) e2 \<and>
      is_dirty (snd (check_depends_dirty edb e3 {})) e3 \<and>
      snd (check_depends_dirty edb e3 {}) = set_dirty (set_dirty edb e2 True) e3 True)"
proof (intro conjI allI impI)
  have "dirty_reach edb e \<longleftrightarrow>
      is_dirty edb e \<or> (\<exists>t. (e, t) \<in> (dep_rel edb)\<^sup>+ \<and> is_dirty edb t)"
    unfolding dirty_reach_def by (metis rtrancl_eq_or_trancl)
  then show "fst (check_depends_dirty edb e {}) \<longleftrightarrow>
      is_dirty edb e \<or> (\<exists>t. (e, t) \<in> (dep_rel edb)\<^sup>+ \<and> is_dirty edb t)"
    by (simp add: check_depends_dirty_iff)
next
  show "fst (check_depends_dirty edb e {}) = is_dirty (snd (check_depends_dirty edb e {})) e"
    by (rule check_returns_flag)
next
  fix t assume "is_dirty edb t"
  then show "is_dirty (snd (check_depends_dirty edb e {})) t"
    by (rule check_scan_keeps_dirty(1))
next
  show "map evid (snd (check_depends_dirty edb e {})) = map evid edb"
    by (rule check_scan_ids(1))
next
  assume "edb_get edb e \<noteq> None \<and> \<not> is_dirty edb e \<and> dev \<notin> checks \<and>
      fst (check_depends_dirty edb dev checks)"
  then show "is_dirty (scan_dependencies edb e (dev # devs) checks) e"
    by (intro scan_sets_flag) simp_all
next
  assume a: "edb_get edb e1 = Some ev1 \<and> dirty ev1 \<and>
    edb_get edb e2 = Some ev2 \<and> \<not> dirty ev2 \<and> split_ws (depend ev2) = [e1] \<and>
    edb_get edb e3 = Some ev3 \<and> \<not> dirty ev3 \<and> split_ws (depend ev3) = [e2] \<and>
    e1 \<noteq> e2 \<and> e1 \<noteq> e3 \<and> e2 \<noteq> e3"
  then have r: "check_depends_dirty edb e3 {} = (True, set_dirty (set_dirty edb e2 True) e3 True)"
    by (intro chain_propagates [of edb e1 ev1 e2 ev2 e3 ev3]) simp_all
  from a have x: "edb_get edb e2 \<noteq> None" "edb_get edb e3 \<noteq> None" by simp_all
  show "fst (check_depends_dirty edb e3 {})" using r by simp
  show "is_dirty (snd (check_depends_dirty edb e3 {})) e2"
    using r x by (simp add: is_dirty_set_dirty)
  show "is_dirty (snd (check_depends_dirty edb e3 {})) e3"
    using r x by (simp add: is_dirty_set_dirty edb_get_set_dirty)
  show "snd (check_depends_dirty edb e3 {}) = set_dirty (set_dirty edb e2 True) e3 True"
    using r by simp
qed

theorem check_depends_dirty_propagates_witness:
  "edb_get chain_edb ''E1'' = Some (mk_event ''E1'' '''' True) \<and>
   edb_get chain_edb ''E2'' = Some (mk_event ''E2'' ''E1'' False) \<and>
   edb_get chain_edb ''E3'' = Some (mk_event ''E3'' ''E2'' False) \<and>
   split_ws ''E1'' = [''E1''] \<and> split_ws ''E2'' = [''E2''] \<and>
   is_dirty chain_edb ''E1'' \<and> \<not> is_dirty chain_edb ''E2'' \<and> \<not> is_dirty chain_edb ''E3'' \<and>
   fst (check_depends_dirty chain_edb ''E3'' {}) \<and>
   is_dirty (snd (check_depends_dirty chain_edb ''E3'' {})) ''E2'' \<and>
   is_dirty (snd (check_depends_dirty chain_edb ''E3'' {})) ''E3'' \<and>
   snd (check_depends_dirty chain_edb ''E3'' {}) =
     [mk_event ''E1'' '''' True, mk_event ''E2'' ''E1'' True, mk_event ''E3'' ''E2'' True]"
proof -
  have g: "edb_get chain_edb ''E1'' = Some (mk_event ''E1'' '''' True)"
    "edb_get chain_edb ''E2'' = Some (mk_event ''E2'' ''E1'' False)"
    "edb_get chain_edb ''E3'' = Some (mk_event ''E3'' ''E2'' False)"
    by (simp_all add: chain_edb_def edb_get_def mk_event_def)
  have w: "split_ws ''E1'' = [''E1'']" "split_ws ''E2'' = [''E2'']"
    by (simp_all add: split_ws_def is_space_def)
  have d: "is_dirty chain_edb ''E1''" "\<not> is_dirty chain_edb ''E2''" "\<not> is_dirty chain_edb ''E3''"
    by (simp_all add: is_dirty_def g) (simp_all add: mk_event_def)
  have f: "dirty (mk_event ''E1'' '''' True)" "\<not> dirty (mk_event ''E2'' ''E1'' False)"
    "\<not> dirty (mk_event ''E3'' ''E2'' False)"
    "depend (mk_event ''E2'' ''E1'' False) = ''E1''" "depend (mk_event ''E3'' ''E2'' False) = ''E2''"
    by (simp_all add: mk_event_def)
  have s: "set_dirty (set_dirty chain_edb ''E2'' True) ''E3'' True =
      [mk_event ''E1'' '''' True, mk_event ''E2'' ''E1'' True, mk_event ''E3'' ''E2'' True]"
    by (simp add: chain_edb_def set_dirty_def mk_event_def)
  note t = check_depends_dirty_propagates [of chain_edb "''E3''" "''E2''" "{}" "[]" "''E1''"
      "mk_event ''E1'' '''' True" "''E2''" "mk_event ''E2'' ''E1'' False" "''E3''"
      "mk_event ''E3'' ''E2'' False"]
  note chain = t [THEN conjunct2, THEN conjunct2, THEN conjunct2, THEN conjunct2, THEN conjunct2]
  have r: "fst (check_depends_dirty chain_edb ''E3'' {}) \<and>
      is_dirty (snd (check_depends_dirty chain_edb ''E3'' {})) ''E2'' \<and>
      is_dirty (snd (check_depends_dirty chain_edb ''E3'' {})) ''E3'' \<and>
      snd (check_depends_dirty chain_edb ''E3'' {}) =
        set_dirty (set_dirty chain_edb ''E2'' True) ''E3'' True"
  proof (rule mp [OF chain])
    show "edb_get chain_edb ''E1'' = Some (mk_event ''E1'' '''' True) \<and>
      dirty (mk_event ''E1'' '''' True) \<and>
      edb_get chain_edb ''E2'' = Some (mk_event ''E2'' ''E1'' False) \<and>
      \<not> dirty (mk_event ''E2'' ''E1'' False) \<and>
      split_ws (depend (mk_event ''E2'' ''E1'' False)) = [''E1''] \<and>
      edb_get chain_edb ''E3'' = Some (mk_event ''E3'' ''E2'' False) \<and>
      \<not> dirty (mk_event ''E3'' ''E2'' False) \<and>
      split_ws (depend (mk_event ''E3'' ''E2'' False)) = [''E2''] \<and>
      ''E1'' \<noteq> ''E2'' \<and> ''E1'' \<noteq> ''E3'' \<and> ''E2'' \<noteq> ''E3''"
      using g w f by simp
  qed
  from r have r1: "fst (check_depends_dirty chain_edb ''E3'' {})"
    and r2: "is_dirty (snd (check_depends_dirty chain_edb ''E3'' {})) ''E2''"
    and r3: "is_dirty (snd (check_depends_dirty chain_edb ''E3'' {})) ''E3''"
    and r4': "snd (check_depends_dirty chain_edb ''E3'' {}) =
        set_dirty (set_dirty chain_edb ''E2'' True) ''E3'' True"
    by blast+
  from r4' s have r4: "snd (check_depends_dirty chain_edb ''E3'' {}) =
      [mk_event ''E1'' '''' True, mk_event ''E2'' ''E1'' True, mk_event ''E3'' ''E2'' True]"
    by (rule trans)
  show ?thesis by (intro conjI) (rule g w d r1 r2 r3 r4)+
qed

section \<open>The export request (\<open>menu_data_export_activate_cb\<close>)\<close>

text \<open>
  The part of the meet that the export request reads and writes: the lock
  \<open>self.exportlock\<close> (held or free), the handle \<open>self.exporter\<close> of the worker
  thread (\<open>None\<close> or a thread, named by its number), and the threads that run: a
  thread is alive from its \<open>start()\<close> until its \<open>run\<close> returns.  \<open>threads\<close>
  counts the thread objects made so far and names the next one.
\<close>

record export_state =
  exportlock :: bool
  exporter :: "nat option"
  alive :: "nat set"
  threads :: nat

definition export_init :: export_state where
  "export_init = \<lparr>exportlock = False, exporter = None, alive = {}, threads = 0\<rparr>"

text \<open>
  The callback returns \<open>None\<close> when the lock is taken and when it has started a
  worker (the function ends without a \<open>return\<close>), and \<open>False\<close> when a handle is
  present.  The result is \<open>bool option\<close>, \<open>None\<close> being Python's \<open>None\<close>.
  \<open>start_ok\<close> says whether \<open>Thread.start()\<close> succeeds; when it raises, the
  \<open>except\<close> branch logs, and the handle of the thread that never ran stays.  The
  \<open>finally\<close> branch frees the lock on every path that took it.
\<close>

definition menu_data_export_activate_cb :: "bool \<Rightarrow> export_state \<Rightarrow> bool option \<times> export_state" where
  "menu_data_export_activate_cb start_ok s =
     (if exportlock s then (None, s)
      else let s1 = s\<lparr>exportlock := True\<rparr> in
        (case exporter s1 of
           Some t \<Rightarrow>
             if t \<notin> alive s1 then (Some False, s1\<lparr>exporter := None, exportlock := False\<rparr>)
             else (Some False, s1\<lparr>exportlock := False\<rparr>)
         | None \<Rightarrow>
             let t = threads s1;
                 s2 = s1\<lparr>exporter := Some t, threads := Suc t\<rparr>;
                 s3 = (if start_ok then s2\<lparr>alive := insert t (alive s2)\<rparr> else s2)
             in (None, s3\<lparr>exportlock := False\<rparr>)))"

text \<open>
  The timer callback drops the handle of a worker that has ended
  (\<open>if not self.exporter.is_alive(): self.exporter = None\<close>).
\<close>

definition timeout_poll :: "export_state \<Rightarrow> export_state" where
  "timeout_poll s =
     (case exporter s of
        Some t \<Rightarrow> if t \<notin> alive s then s\<lparr>exporter := None\<rparr> else s
      | None \<Rightarrow> s)"

text \<open>A worker ends when \<open>__run_data_export\<close> returns.\<close>

definition worker_exit :: "nat \<Rightarrow> export_state \<Rightarrow> export_state" where
  "worker_exit t s = s\<lparr>alive := alive s - {t}\<rparr>"

text \<open>
  The states of a running meet: each export request and each timer tick is one step of
  the control path, and a worker may end between any two of them.
\<close>

inductive reachable :: "export_state \<Rightarrow> bool" where
  init: "reachable export_init"
| request: "reachable s \<Longrightarrow> reachable (snd (menu_data_export_activate_cb start_ok s))"
| poll: "reachable s \<Longrightarrow> reachable (timeout_poll s)"
| exit: "reachable s \<Longrightarrow> t \<in> alive s \<Longrightarrow> reachable (worker_exit t s)"

definition export_inv :: "export_state \<Rightarrow> bool" where
  "export_inv s \<longleftrightarrow>
     \<not> exportlock s \<and>
     (case exporter s of None \<Rightarrow> alive s = {} | Some t \<Rightarrow> alive s \<subseteq> {t} \<and> t < threads s)"

lemma export_inv_init: "export_inv export_init"
  by (simp add: export_inv_def export_init_def)

lemma export_inv_request:
  "export_inv s \<Longrightarrow> export_inv (snd (menu_data_export_activate_cb start_ok s))"
  by (auto simp: export_inv_def menu_data_export_activate_cb_def Let_def split: option.splits)

lemma export_inv_poll: "export_inv s \<Longrightarrow> export_inv (timeout_poll s)"
  by (auto simp: export_inv_def timeout_poll_def split: option.splits)

lemma export_inv_exit: "export_inv s \<Longrightarrow> export_inv (worker_exit t s)"
  by (auto simp: export_inv_def worker_exit_def split: option.splits)

lemma reachable_inv: "reachable s \<Longrightarrow> export_inv s"
  by (induction rule: reachable.induct)
    (simp_all add: export_inv_init export_inv_request export_inv_poll export_inv_exit)

lemma export_inv_card: "export_inv s \<Longrightarrow> finite (alive s) \<and> card (alive s) \<le> 1"
proof -
  assume "export_inv s"
  then obtain t where sub: "alive s \<subseteq> {t}"
    by (auto simp: export_inv_def split: option.splits)
  then have "finite (alive s)" by (rule finite_subset) simp
  moreover from sub have "card (alive s) \<le> card {t}" by (intro card_mono) simp_all
  ultimately show ?thesis by simp
qed

text \<open>
  Claim C8.  In every state of a running meet in which the worker of an earlier request
  is alive, an export request returns \<open>False\<close> and leaves the state as it is: no
  second worker is started and nothing is queued.  A request starts a worker only when
  none is alive, and at most one worker is alive in every state.
\<close>

theorem export_single_flight:
  assumes "reachable s"
  shows "(\<forall>t. exporter s = Some t \<and> t \<in> alive s \<longrightarrow>
            menu_data_export_activate_cb start_ok s = (Some False, s)) \<and>
         alive (snd (menu_data_export_activate_cb start_ok s)) \<subseteq>
           (if alive s = {} then {threads s} else alive s) \<and>
         finite (alive s) \<and> card (alive s) \<le> 1"
proof -
  from assms have inv: "export_inv s" by (rule reachable_inv)
  then have free: "\<not> exportlock s" by (simp add: export_inv_def)
  have a: "\<forall>t. exporter s = Some t \<and> t \<in> alive s \<longrightarrow>
            menu_data_export_activate_cb start_ok s = (Some False, s)"
    using free by (simp add: menu_data_export_activate_cb_def)
  have b: "alive (snd (menu_data_export_activate_cb start_ok s)) \<subseteq>
           (if alive s = {} then {threads s} else alive s)"
    using inv by (auto simp: export_inv_def menu_data_export_activate_cb_def Let_def
        split: option.splits)
  from a b export_inv_card [OF inv] show ?thesis by simp
qed

theorem export_single_flight_witness:
  "reachable (snd (menu_data_export_activate_cb True export_init)) \<and>
   exporter (snd (menu_data_export_activate_cb True export_init)) = Some 0 \<and>
   0 \<in> alive (snd (menu_data_export_activate_cb True export_init)) \<and>
   menu_data_export_activate_cb True (snd (menu_data_export_activate_cb True export_init)) =
     (Some False, snd (menu_data_export_activate_cb True export_init))"
proof -
  let ?s = "snd (menu_data_export_activate_cb True export_init)"
  have r: "reachable ?s" by (rule reachable.request) (rule reachable.init)
  have e: "exporter ?s = Some 0" "0 \<in> alive ?s"
    by (simp_all add: menu_data_export_activate_cb_def export_init_def)
  from export_single_flight [OF r, of True] e r show ?thesis by simp
qed

section \<open>The export pass (\<open>__run_data_export\<close>)\<close>

text \<open>
  The first loop asks \<open>check_depends_dirty\<close> for every event of the directory, in
  order, and enters the dirty ones in the dict \<open>dmap\<close> under their number.  The dict
  is the list of its keys in insertion order; its values are the events of the
  directory under these numbers.
\<close>

definition dmap_add :: "string list \<Rightarrow> string \<Rightarrow> string list" where
  "dmap_add dmap evno = (if evno \<in> set dmap then dmap else dmap @ [evno])"

fun mark_dirty :: "eventdb \<Rightarrow> string list \<Rightarrow> string list \<Rightarrow> string list \<times> eventdb" where
  "mark_dirty edb [] dmap = (dmap, edb)"
| "mark_dirty edb (evno # evnos) dmap =
     (case check_depends_dirty edb evno {} of
        (d, edb') \<Rightarrow> mark_dirty edb' evnos (if d then dmap_add dmap evno else dmap))"

text \<open>
  The files of one event: \<open>basename\<close> is \<open>'event_'\<close> and the event number passed
  through the character table \<open>strops.WEBFILE_UTRANS\<close> of the metarace library, here
  the parameter \<open>webfile\<close>.
\<close>

definition event_files :: "(string \<Rightarrow> string) \<Rightarrow> string \<Rightarrow> string list" where
  "event_files webfile evno =
     (let basename = ''event_'' @ webfile evno
      in [basename @ ''.html'', basename @ ''.json'',
          basename @ ''_startlist.json'', basename @ ''_result.json''])"

text \<open>
  The second loop, over \<open>dmap.items()\<close>.  It reads the result flag, clears the dirty
  flag, loads the handler of the event and, when the result flag is set, writes the four
  files.  The handler and the writes are outside this file and may raise; the exception
  is caught at the end of the pass, which it ends.  \<open>h evno\<close> is \<open>None\<close> when the
  event goes through and \<open>Some k\<close> when it raises after \<open>k\<close> of its files.  The
  result is: whether the pass reached its end, the directory, and the files written, each
  with the number of its event.
\<close>

fun export_dirty :: "(string \<Rightarrow> nat option) \<Rightarrow> (string \<Rightarrow> string) \<Rightarrow> eventdb \<Rightarrow> string list \<Rightarrow>
    (string \<times> string) list \<Rightarrow> bool \<times> eventdb \<times> (string \<times> string) list" where
  "export_dirty h webfile edb [] out = (True, edb, out)"
| "export_dirty h webfile edb (evno # rest) out =
     (case edb_get edb evno of
        None \<Rightarrow> export_dirty h webfile edb rest out
      | Some e \<Rightarrow>
          let doexport = result e;
              edb' = set_dirty edb evno False
          in (case h evno of
                Some k \<Rightarrow>
                  (False, edb',
                   out @ (if doexport then map (Pair evno) (take k (event_files webfile evno)) else []))
              | None \<Rightarrow>
                  export_dirty h webfile edb' rest
                    (out @ (if doexport then map (Pair evno) (event_files webfile evno) else []))))"

definition run_data_export :: "(string \<Rightarrow> nat option) \<Rightarrow> (string \<Rightarrow> string) \<Rightarrow> eventdb \<Rightarrow>
    bool \<times> eventdb \<times> (string \<times> string) list" where
  "run_data_export h webfile edb =
     (case mark_dirty edb (map evid edb) [] of
        (dmap, edb1) \<Rightarrow> export_dirty h webfile edb1 dmap [])"

text \<open>All columns of the directory but the dirty flags, which the scan may set.\<close>

definition clear_flags :: "eventdb \<Rightarrow> eventdb" where
  "clear_flags edb = map (\<lambda>e. e\<lparr>dirty := False\<rparr>) edb"

text \<open>
  A directory of two events: \<open>E1\<close> is marked and its result flag is not set; \<open>E2\<close>
  names \<open>E1\<close> and its result flag is set.  \<open>export_edb_marked\<close> is the directory after
  the scan and \<open>export_edb_clean\<close> after the pass.
\<close>

definition export_edb :: eventdb where
  "export_edb =
     [\<lparr>evid = ''E1'', etype = ''sprint'', depend = '''', auto = '''', reference = '''',
       dirty = True, result = False\<rparr>,
      \<lparr>evid = ''E2'', etype = ''sprint'', depend = ''E1'', auto = '''', reference = '''',
       dirty = False, result = True\<rparr>]"

definition export_edb_marked :: eventdb where
  "export_edb_marked =
     [\<lparr>evid = ''E1'', etype = ''sprint'', depend = '''', auto = '''', reference = '''',
       dirty = True, result = False\<rparr>,
      \<lparr>evid = ''E2'', etype = ''sprint'', depend = ''E1'', auto = '''', reference = '''',
       dirty = True, result = True\<rparr>]"

definition export_edb_clean :: eventdb where
  "export_edb_clean =
     [\<lparr>evid = ''E1'', etype = ''sprint'', depend = '''', auto = '''', reference = '''',
       dirty = False, result = False\<rparr>,
      \<lparr>evid = ''E2'', etype = ''sprint'', depend = ''E1'', auto = '''', reference = '''',
       dirty = False, result = True\<rparr>]"

text \<open>
  The same directory after a pass in which the handler of \<open>E1\<close> raises before a file
  is written.
\<close>

definition export_edb_cut :: eventdb where
  "export_edb_cut =
     [\<lparr>evid = ''E1'', etype = ''sprint'', depend = '''', auto = '''', reference = '''',
       dirty = False, result = False\<rparr>,
      \<lparr>evid = ''E2'', etype = ''sprint'', depend = ''E1'', auto = '''', reference = '''',
       dirty = True, result = True\<rparr>]"

definition raise_at_E1 :: "string \<Rightarrow> nat option" where
  "raise_at_E1 evno = (if evno = ''E1'' then Some 0 else None)"

lemma is_dirty_clear:
  "is_dirty (set_dirty edb x False) y \<longleftrightarrow> is_dirty edb y \<and> y \<noteq> x"
  unfolding is_dirty_def by (auto simp: edb_get_set_dirty dest: edb_get_SomeD split: option.splits)

lemma result_set_dirty:
  "map_option result (edb_get (set_dirty edb x b) y) = map_option result (edb_get edb y)"
  by (cases "edb_get edb y") (simp_all add: edb_get_set_dirty)

lemma export_dirty_flags:
  "export_dirty h webfile edb dmap out = (fin, edb2, out2) \<Longrightarrow>
     (\<forall>t. is_dirty edb2 t \<longrightarrow> is_dirty edb t) \<and>
     (fin \<longrightarrow> (\<forall>evno\<in>set dmap. \<not> is_dirty edb2 evno))"
proof (induction h webfile edb dmap out arbitrary: fin edb2 out2 rule: export_dirty.induct)
  case (1 h webfile edb out)
  then show ?case by simp
next
  case (2 h webfile edb evno rest out)
  show ?case
  proof (cases "edb_get edb evno")
    case None
    then have "\<not> is_dirty edb evno" by (simp add: is_dirty_def)
    with 2(1) [OF None] 2(3) None show ?thesis by auto
  next
    case (Some e)
    show ?thesis
    proof (cases "h evno")
      case (Some k)
      with 2(3) \<open>edb_get edb evno = Some e\<close> show ?thesis
        by (auto simp: Let_def is_dirty_clear)
    next
      case None
      let ?edb' = "set_dirty edb evno False"
      let ?out' = "out @ (if result e then map (Pair evno) (event_files webfile evno) else [])"
      from 2(3) Some None have "export_dirty h webfile ?edb' rest ?out' = (fin, edb2, out2)"
        by (simp add: Let_def)
      from 2(2) [OF Some refl refl None this]
      show ?thesis by (auto simp: is_dirty_clear)
    qed
  qed
qed

lemma export_dirty_files:
  "export_dirty h webfile edb dmap out = (fin, edb2, out2) \<Longrightarrow>
     (\<forall>(n, f)\<in>set out. P n) \<Longrightarrow>
     (\<forall>n e. n \<in> set dmap \<longrightarrow> edb_get edb n = Some e \<longrightarrow> result e \<longrightarrow> P n) \<Longrightarrow>
     (\<forall>(n, f)\<in>set out2. P n)"
proof (induction h webfile edb dmap out arbitrary: fin edb2 out2 rule: export_dirty.induct)
  case (1 h webfile edb out)
  then show ?case by simp
next
  case (2 h webfile edb evno rest out)
  show ?case
  proof (cases "edb_get edb evno")
    case None
    with 2(1) [OF None] 2(3,4,5) show ?thesis by auto
  next
    case (Some e)
    have P: "result e \<Longrightarrow> P evno" using 2(5) Some by auto
    show ?thesis
    proof (cases "h evno")
      case (Some k)
      have "set (take k (event_files webfile evno)) \<subseteq> set (event_files webfile evno)"
        by (rule set_take_subset)
      with 2(3) \<open>edb_get edb evno = Some e\<close> Some 2(4) P show ?thesis
        by (auto simp: Let_def split: if_splits)
    next
      case None
      let ?edb' = "set_dirty edb evno False"
      let ?out' = "out @ (if result e then map (Pair evno) (event_files webfile evno) else [])"
      from 2(3) Some None have r: "export_dirty h webfile ?edb' rest ?out' = (fin, edb2, out2)"
        by (simp add: Let_def)
      have o: "\<forall>(n, f)\<in>set ?out'. P n" using 2(4) P by auto
      have "\<forall>n e. n \<in> set rest \<longrightarrow> edb_get ?edb' n = Some e \<longrightarrow> result e \<longrightarrow> P n"
      proof (intro allI impI)
        fix n e' assume n: "n \<in> set rest" and g: "edb_get ?edb' n = Some e'" and re: "result e'"
        from g obtain e0 where "edb_get edb n = Some e0" "result e0 = result e'"
          by (cases "edb_get edb n") (auto simp: edb_get_set_dirty split: if_splits)
        with n re 2(5) show "P n" by auto
      qed
      from 2(2) [OF Some refl refl None r o this] show ?thesis .
    qed
  qed
qed

lemma clear_flags_set_dirty: "clear_flags (set_dirty edb x b) = clear_flags edb"
  by (simp add: clear_flags_def set_dirty_def)

lemma check_scan_frame:
  "clear_flags (snd (check_depends_dirty edb evno checked)) = clear_flags edb"
  "clear_flags (scan_dependencies edb evno devs checks) = clear_flags edb"
proof (induction edb evno checked and edb evno devs checks
    rule: check_depends_dirty_scan_dependencies.induct)
  case (1 edb evno checked)
  then show ?case by (simp add: check_depends_dirty.simps Let_def split: option.splits)
next
  case (2 edb evno checks)
  then show ?case by simp
next
  case (3 edb evno dev devs checks)
  then show ?case by (auto simp: clear_flags_set_dirty split: prod.splits)
qed

lemma clear_flags_result:
  assumes "clear_flags edb' = clear_flags edb"
  shows "map_option result (edb_get edb' n) = map_option result (edb_get edb n)"
proof -
  have "map_option result (edb_get (clear_flags x) n) = map_option result (edb_get x n)" for x
    unfolding edb_get_def clear_flags_def by (induction x) auto
  with assms show ?thesis by metis
qed

lemma clear_flags_ids:
  assumes "clear_flags edb' = clear_flags edb"
  shows "map evid edb' = map evid edb"
proof -
  have "map evid (clear_flags x) = map evid x" for x
    unfolding clear_flags_def by simp
  with assms show ?thesis by metis
qed

lemma dirty_reach_ext:
  assumes "sound_ext edb edb'" "\<forall>t. is_dirty edb t \<longrightarrow> is_dirty edb' t"
  shows "dirty_reach edb' e = dirty_reach edb e"
proof
  assume "dirty_reach edb' e"
  then obtain t where t: "(e, t) \<in> (dep_rel edb)\<^sup>*" "is_dirty edb' t"
    using assms(1) unfolding dirty_reach_def sound_ext_def by auto
  with assms(1) obtain u where "(t, u) \<in> (dep_rel edb)\<^sup>*" "is_dirty edb u"
    unfolding dirty_reach_def sound_ext_def by blast
  with t(1) show "dirty_reach edb e" unfolding dirty_reach_def by (meson rtrancl_trans)
next
  assume "dirty_reach edb e"
  with assms show "dirty_reach edb' e" unfolding dirty_reach_def sound_ext_def by auto
qed

lemma mark_dirty_spec:
  assumes "mark_dirty edbk evnos dmap = (dmap', edb')"
    and "sound_ext edb edbk" "\<forall>t. is_dirty edb t \<longrightarrow> is_dirty edbk t"
    and "clear_flags edbk = clear_flags edb"
  shows "set dmap' = set dmap \<union> {e \<in> set evnos. dirty_reach edb e} \<and>
         sound_ext edb edb' \<and> (\<forall>t. is_dirty edb t \<longrightarrow> is_dirty edb' t) \<and>
         clear_flags edb' = clear_flags edb"
  using assms
proof (induction evnos arbitrary: edbk dmap)
  case Nil
  then show ?case by simp
next
  case (Cons evno evnos)
  obtain d edb1 where c: "check_depends_dirty edbk evno {} = (d, edb1)"
    by (cases "check_depends_dirty edbk evno {}")
  have d: "d = dirty_reach edb evno"
    using check_depends_dirty_iff [of edbk evno] c dirty_reach_ext [OF Cons.prems(2,3)] by simp
  have s1: "sound_ext edb edb1"
    using check_scan_sound(1) [of edbk evno "{}"] c Cons.prems(2) by (auto intro: sound_ext_trans)
  have m1: "\<forall>t. is_dirty edb t \<longrightarrow> is_dirty edb1 t"
    using check_scan_keeps_dirty(1) [of edbk _ evno "{}"] c Cons.prems(3) by auto
  have f1: "clear_flags edb1 = clear_flags edb"
    using check_scan_frame(1) [of edbk evno "{}"] c Cons.prems(4) by simp
  from Cons.prems(1) c have
    "mark_dirty edb1 evnos (if d then dmap_add dmap evno else dmap) = (dmap', edb')" by simp
  from Cons.IH [OF this s1 m1 f1] d show ?case by (auto simp: dmap_add_def)
qed

lemma export_dirty_completes:
  "\<forall>evno\<in>set dmap. h evno = None \<Longrightarrow> fst (export_dirty h webfile edb dmap out)"
  by (induction h webfile edb dmap out rule: export_dirty.induct)
    (auto simp: Let_def split: option.splits)

lemma export_edb_mark:
  "mark_dirty export_edb (map evid export_edb) [] = ([''E1'', ''E2''], export_edb_marked)"
  by (simp add: export_edb_def export_edb_marked_def check_depends_dirty.simps edb_get_def
      is_dirty_def set_dirty_def split_ws_def is_space_def dmap_add_def)

lemma export_edb_export:
  "export_dirty (\<lambda>evno. None) (\<lambda>evno. evno) export_edb_marked [''E1'', ''E2''] [] =
     (True, export_edb_clean,
      [(''E2'', ''event_E2.html''), (''E2'', ''event_E2.json''),
       (''E2'', ''event_E2_startlist.json''), (''E2'', ''event_E2_result.json'')])"
  by (simp add: export_edb_marked_def export_edb_clean_def edb_get_def set_dirty_def
      event_files_def)

lemma edb_get_set_dirty_None:
  "edb_get (set_dirty edb x b) y = None \<longleftrightarrow> edb_get edb y = None"
  by (simp add: edb_get_set_dirty)

lemma export_dirty_cut:
  assumes "\<forall>e\<in>set pre. h e = None" "h x = Some k" "edb_get edb x \<noteq> None"
    and "export_dirty h webfile edb (pre @ x # post) out = (fin, edb2, out2)"
  shows "\<not> fin \<and> (\<forall>t. is_dirty edb2 t \<longleftrightarrow> is_dirty edb t \<and> t \<notin> set pre \<and> t \<noteq> x)"
  using assms
proof (induction pre arbitrary: edb out)
  case Nil
  then show ?case by (auto simp: Let_def is_dirty_clear)
next
  case (Cons p ps)
  show ?case
  proof (cases "edb_get edb p")
    case None
    then have np: "\<not> is_dirty edb p" by (simp add: is_dirty_def)
    from Cons.prems None have "export_dirty h webfile edb (ps @ x # post) out = (fin, edb2, out2)"
      by simp
    from Cons.IH [OF _ Cons.prems(2,3) this] Cons.prems(1) np show ?thesis by auto
  next
    case (Some e)
    let ?edb' = "set_dirty edb p False"
    let ?out' = "out @ (if result e then map (Pair p) (event_files webfile p) else [])"
    from Cons.prems(1) have hp: "h p = None" by simp
    with Cons.prems(4) Some have r: "export_dirty h webfile ?edb' (ps @ x # post) ?out' = (fin, edb2, out2)"
      by (simp add: Let_def)
    have ex: "edb_get ?edb' x \<noteq> None" using Cons.prems(3) by (simp add: edb_get_set_dirty_None)
    from Cons.IH [OF _ Cons.prems(2) ex r] Cons.prems(1) show ?thesis
      by (auto simp: is_dirty_clear)
  qed
qed

lemma mark_dirty_marked:
  assumes "mark_dirty edbk evnos dmap = (dmap', edb')" "\<forall>t\<in>set dmap. is_dirty edbk t"
  shows "\<forall>t\<in>set dmap'. is_dirty edb' t"
  using assms
proof (induction evnos arbitrary: edbk dmap)
  case Nil
  then show ?case by simp
next
  case (Cons evno evnos)
  obtain d edb1 where c: "check_depends_dirty edbk evno {} = (d, edb1)"
    by (cases "check_depends_dirty edbk evno {}")
  have k: "\<forall>t\<in>set dmap. is_dirty edb1 t"
    using check_scan_keeps_dirty(1) [of edbk _ evno "{}"] c Cons.prems(2) by auto
  have n: "d \<Longrightarrow> is_dirty edb1 evno"
    using check_returns_flag [of edbk evno "{}"] c by simp
  from Cons.prems(1) c have
    "mark_dirty edb1 evnos (if d then dmap_add dmap evno else dmap) = (dmap', edb')" by simp
  moreover have "\<forall>t\<in>set (if d then dmap_add dmap evno else dmap). is_dirty edb1 t"
    using k n by (auto simp: dmap_add_def)
  ultimately show ?case by (rule Cons.IH)
qed

lemma export_cut_example:
  "run_data_export raise_at_E1 (\<lambda>evno. evno) export_edb = (False, export_edb_cut, [])"
proof -
  have "export_dirty raise_at_E1 (\<lambda>evno. evno) export_edb_marked [''E1'', ''E2''] [] =
      (False, export_edb_cut, [])"
    by (simp add: export_edb_marked_def export_edb_cut_def edb_get_def set_dirty_def
        raise_at_E1_def)
  then show ?thesis by (simp add: run_data_export_def export_edb_mark)
qed

lemma export_cut_export:
  "export_dirty raise_at_E1 (\<lambda>evno. evno) export_edb_marked [''E1'', ''E2''] [] =
      (False, export_edb_cut, [])"
  by (simp add: export_edb_marked_def export_edb_cut_def edb_get_def set_dirty_def
      raise_at_E1_def)

text \<open>
  Claim C9 has every event that the scan finds dirty cleared in an export pass.  A pass
  in which a handler raises is caught, logged and ended: with the handler of \<open>E1\<close>
  raising, the pass clears \<open>E1\<close>, writes nothing, and leaves \<open>E2\<close>, which the scan
  found dirty, with its flag set.
\<close>

theorem run_data_export_cut_short_counterexample:
  "fst (check_depends_dirty export_edb ''E2'' {}) \<and>
   run_data_export raise_at_E1 (\<lambda>evno. evno) export_edb = (False, export_edb_cut, []) \<and>
   is_dirty export_edb_cut ''E2'' \<and> \<not> is_dirty export_edb_cut ''E1''"
proof -
  have "fst (check_depends_dirty export_edb ''E2'' {})"
    by (simp add: check_depends_dirty.simps export_edb_def edb_get_def is_dirty_def set_dirty_def
        split_ws_def is_space_def)
  moreover have "is_dirty export_edb_cut ''E2''" "\<not> is_dirty export_edb_cut ''E1''"
    by (simp_all add: export_edb_cut_def is_dirty_def edb_get_def)
  ultimately show ?thesis using export_cut_example by simp
qed

text \<open>
  Claim C9, as the code has it.  \<open>dmap\<close> holds the events of the directory that the
  dependency scan finds dirty.  A pass in which no handler and no write raises reaches its
  end, and then every event of \<open>dmap\<close> has its dirty flag cleared, also an event whose
  result flag is not set, for which the pass writes no file: every file written, in a
  pass that ends or in one that is cut short, belongs to an event of \<open>dmap\<close> whose
  result flag is set.  A pass in which the event \<open>x\<close> raises ends there: of \<open>dmap\<close>
  the events before \<open>x\<close> and \<open>x\<close> itself are cleared, and the events behind it keep
  their flag.
\<close>

theorem run_data_export_clears_dirty:
  assumes "mark_dirty edb (map evid edb) [] = (dmap, edb1)"
    and "export_dirty h webfile edb1 dmap [] = (fin, edb2, out)"
  shows "run_data_export h webfile edb = (fin, edb2, out) \<and>
         set dmap = {evno \<in> evid ` set edb. fst (check_depends_dirty edb evno {})} \<and>
         ((\<forall>evno\<in>set dmap. h evno = None) \<longrightarrow> fin) \<and>
         (fin \<longrightarrow> (\<forall>evno\<in>set dmap. \<not> is_dirty edb2 evno)) \<and>
         (fin \<longrightarrow> (\<forall>evno\<in>set dmap. \<forall>e. edb_get edb evno = Some e \<and> \<not> result e \<longrightarrow>
            \<not> is_dirty edb2 evno \<and> evno \<notin> fst ` set out)) \<and>
         (\<forall>(n, f)\<in>set out. n \<in> set dmap \<and> (\<exists>e. edb_get edb n = Some e \<and> result e)) \<and>
         (dmap = pre @ x # post \<and> (\<forall>evno\<in>set pre. h evno = None) \<and> h x = Some k \<longrightarrow>
            \<not> fin \<and> (\<forall>evno\<in>set dmap. is_dirty edb2 evno \<longleftrightarrow> evno \<notin> set pre \<and> evno \<noteq> x))"
proof -
  have sp: "set dmap = {e \<in> set (map evid edb). dirty_reach edb e}"
    "clear_flags edb1 = clear_flags edb"
    using mark_dirty_spec [OF assms(1) sound_ext_refl] by simp_all
  have r: "run_data_export h webfile edb = (fin, edb2, out)"
    using assms by (simp add: run_data_export_def)
  have dm: "set dmap = {evno \<in> evid ` set edb. fst (check_depends_dirty edb evno {})}"
    using sp(1) by (simp add: check_depends_dirty_iff)
  have cl: "fin \<longrightarrow> (\<forall>evno\<in>set dmap. \<not> is_dirty edb2 evno)"
    using export_dirty_flags [OF assms(2)] by simp
  have res: "map_option result (edb_get edb1 n) = map_option result (edb_get edb n)" for n
    using sp(2) by (rule clear_flags_result)
  have fl: "\<forall>(n, f)\<in>set out. n \<in> set dmap \<and> (\<exists>e. edb_get edb n = Some e \<and> result e)"
  proof (rule export_dirty_files [OF assms(2)])
    show "\<forall>(n, f)\<in>set []. n \<in> set dmap \<and> (\<exists>e. edb_get edb n = Some e \<and> result e)" by simp
    show "\<forall>n e. n \<in> set dmap \<longrightarrow> edb_get edb1 n = Some e \<longrightarrow> result e \<longrightarrow>
        n \<in> set dmap \<and> (\<exists>e. edb_get edb n = Some e \<and> result e)"
    proof (intro allI impI conjI)
      fix n e assume "n \<in> set dmap" "edb_get edb1 n = Some e" "result e"
      then show "n \<in> set dmap" by simp
      from \<open>edb_get edb1 n = Some e\<close> \<open>result e\<close> res [of n]
      show "\<exists>e. edb_get edb n = Some e \<and> result e"
        by (cases "edb_get edb n") auto
    qed
  qed
  have nr: "fin \<longrightarrow> (\<forall>evno\<in>set dmap. \<forall>e. edb_get edb evno = Some e \<and> \<not> result e \<longrightarrow>
            \<not> is_dirty edb2 evno \<and> evno \<notin> fst ` set out)"
    using cl fl by force
  have co: "(\<forall>evno\<in>set dmap. h evno = None) \<longrightarrow> fin"
    using export_dirty_completes [of dmap h webfile edb1 "[]"] assms(2) by auto
  have mk: "\<forall>t\<in>set dmap. is_dirty edb1 t"
    using mark_dirty_marked [OF assms(1)] by simp
  have cut: "dmap = pre @ x # post \<and> (\<forall>evno\<in>set pre. h evno = None) \<and> h x = Some k \<longrightarrow>
      \<not> fin \<and> (\<forall>evno\<in>set dmap. is_dirty edb2 evno \<longleftrightarrow> evno \<notin> set pre \<and> evno \<noteq> x)"
  proof
    assume a: "dmap = pre @ x # post \<and> (\<forall>evno\<in>set pre. h evno = None) \<and> h x = Some k"
    then have "x \<in> set dmap" by simp
    with mk have "is_dirty edb1 x" by simp
    then have ex: "edb_get edb1 x \<noteq> None" by (auto simp: is_dirty_def split: option.splits)
    from a assms(2) have e: "export_dirty h webfile edb1 (pre @ x # post) [] = (fin, edb2, out)"
      by simp
    from export_dirty_cut [OF _ _ ex e, of k] a mk
    show "\<not> fin \<and> (\<forall>evno\<in>set dmap. is_dirty edb2 evno \<longleftrightarrow> evno \<notin> set pre \<and> evno \<noteq> x)"
      by auto
  qed
  from r dm co cl nr fl cut show ?thesis by (intro conjI)
qed

theorem run_data_export_clears_dirty_witness:
  "mark_dirty export_edb (map evid export_edb) [] = ([''E1'', ''E2''], export_edb_marked) \<and>
   export_dirty (\<lambda>evno. None) (\<lambda>evno. evno) export_edb_marked [''E1'', ''E2''] [] =
     (True, export_edb_clean,
      [(''E2'', ''event_E2.html''), (''E2'', ''event_E2.json''),
       (''E2'', ''event_E2_startlist.json''), (''E2'', ''event_E2_result.json'')]) \<and>
   run_data_export (\<lambda>evno. None) (\<lambda>evno. evno) export_edb =
     (True, export_edb_clean,
      [(''E2'', ''event_E2.html''), (''E2'', ''event_E2.json''),
       (''E2'', ''event_E2_startlist.json''), (''E2'', ''event_E2_result.json'')]) \<and>
   \<not> is_dirty export_edb_clean ''E1'' \<and> \<not> is_dirty export_edb_clean ''E2'' \<and>
   export_dirty raise_at_E1 (\<lambda>evno. evno) export_edb_marked [''E1'', ''E2''] [] =
     (False, export_edb_cut, []) \<and>
   [''E1'', ''E2''] = [] @ ''E1'' # [''E2''] \<and> raise_at_E1 ''E1'' = Some 0 \<and>
   \<not> is_dirty export_edb_cut ''E1'' \<and> is_dirty export_edb_cut ''E2''"
proof -
  note t = run_data_export_clears_dirty [OF export_edb_mark export_edb_export]
  from t have r: "run_data_export (\<lambda>evno. None) (\<lambda>evno. evno) export_edb =
     (True, export_edb_clean,
      [(''E2'', ''event_E2.html''), (''E2'', ''event_E2.json''),
       (''E2'', ''event_E2_startlist.json''), (''E2'', ''event_E2_result.json'')])"
    by (rule conjunct1)
  note c = t [THEN conjunct2, THEN conjunct2, THEN conjunct2, THEN conjunct1]
  from c have c': "\<not> is_dirty export_edb_clean ''E1''" "\<not> is_dirty export_edb_clean ''E2''"
    by simp_all
  note u = run_data_export_clears_dirty [OF export_edb_mark export_cut_export,
      of "[]" "''E1''" "[''E2'']" 0]
  have s: "[''E1'', ''E2''] = [] @ ''E1'' # [''E2'']" by simp
  have h: "raise_at_E1 ''E1'' = Some 0" by (simp add: raise_at_E1_def)
  note v = u [THEN conjunct2, THEN conjunct2, THEN conjunct2, THEN conjunct2, THEN conjunct2,
      THEN conjunct2]
  from v s h have d: "\<not> is_dirty export_edb_cut ''E1''" "is_dirty export_edb_cut ''E2''"
    by simp_all
  show ?thesis
    by (intro conjI) (rule export_edb_mark export_edb_export r c' export_cut_export s h d)+
qed

section \<open>Autospec resolution (\<open>autostart_riders\<close>, \<open>autoplace_riders\<close>)\<close>

definition MAX_AUTORECURSE :: nat where
  "MAX_AUTORECURSE = 8"

text \<open>
  \<open>s.split(sep)\<close> cuts at every \<open>sep\<close> and keeps empty pieces, so the result is
  never empty; \<open>s.strip()\<close> drops the whitespace at both ends; \<open>sep.join(xs)\<close>.
\<close>

fun split_on :: "char \<Rightarrow> string \<Rightarrow> string list" where
  "split_on sep [] = [[]]"
| "split_on sep (c # cs) =
     (let r = split_on sep cs in if c = sep then [] # r else (c # hd r) # tl r)"

definition strip :: "string \<Rightarrow> string" where
  "strip s = rev (dropWhile is_space (rev (dropWhile is_space s)))"

fun join :: "string \<Rightarrow> string list \<Rightarrow> string" where
  "join sep [] = []"
| "join sep [x] = x"
| "join sep (x # y # ys) = x @ sep @ join sep (y # ys)"

text \<open>
  A line \<open>ri\<close> of a handler's \<open>result_gen()\<close>: \<open>ri[0]\<close> is the rider's number,
  \<open>ri[1]\<close> the rank, an \<open>int\<close> or a status such as \<open>'dnf'\<close>, and further columns
  follow.  \<open>row_col\<close> is \<open>ri[i]\<close> for \<open>i < len(ri)\<close>.
\<close>

datatype val = VInt int | VStr string | VNone

record row =
  r_bib :: string
  r_rank :: val
  r_rest :: "val list"

definition row_len :: "row \<Rightarrow> nat" where
  "row_len ri = 2 + length (r_rest ri)"

definition row_col :: "row \<Rightarrow> nat \<Rightarrow> val" where
  "row_col ri i = (if i = 0 then VStr (r_bib ri) else if i = 1 then r_rank ri else r_rest ri ! (i - 2))"

text \<open>
  What the resolver reads of the handler \<open>h\<close> of a source event once
  \<open>h.loadconfig()\<close> has returned.
\<close>

record handler =
  h_evtype :: string
  h_finished :: bool
  h_standingstr :: string
  h_result_gen :: "row list"

text \<open>
  \<open>self.autorecurse.remove(evno)\<close> raises \<open>KeyError\<close> when the number is not in the
  set; \<open>Diverged\<close> stands for a handler that does not return.
\<close>

datatype error = KeyError | Diverged

text \<open>
  \<open>mkrace(self, e, False)\<close> and \<open>h.loadconfig()\<close> are code of the race modules, which
  gets the meet and may resolve the autospec of the source event in its turn.  The
  resolver takes them as the parameter \<open>load\<close>: from the recursion guard
  \<open>self.autorecurse\<close> and the event to the handler and the guard it leaves, or to an
  error.  \<open>strops.placeset\<close> of the metarace library, which reads a place-set into the
  list of its ranks in the order written, is the parameter \<open>placeset\<close>.
\<close>

type_synonym loader = "string fset \<Rightarrow> event \<Rightarrow> error + (handler \<times> string fset)"

text \<open>The seed of a line: \<open>ri[infocol]\<close> when \<open>infocol\<close> is given and in range.\<close>

definition seed_of :: "nat option \<Rightarrow> row \<Rightarrow> val" where
  "seed_of infocol ri =
     (case infocol of
        None \<Rightarrow> VNone
      | Some i \<Rightarrow> if i < row_len ri then row_col ri i else VNone)"

text \<open>
  \<open>evplacemap\<close>, the dict from a rank to the list of (rider, seed) of the lines with
  that rank, filled in the order of the lines.
\<close>

definition add_evplace :: "int list \<Rightarrow> nat option \<Rightarrow> (int \<rightharpoonup> (string \<times> val) list) \<Rightarrow> row \<Rightarrow>
    (int \<rightharpoonup> (string \<times> val) list)" where
  "add_evplace ps infocol m ri =
     (case r_rank ri of
        VInt rank \<Rightarrow>
          if rank \<in> set ps
          then m(rank \<mapsto> (case m rank of None \<Rightarrow> [] | Some l \<Rightarrow> l) @ [(r_bib ri, seed_of infocol ri)])
          else m
      | _ \<Rightarrow> m)"

text \<open>The loop \<open>for p in placeset\<close> that calls \<open>race.addrider\<close>: the calls, in order.\<close>

definition emit_places :: "int list \<Rightarrow> (int \<rightharpoonup> (string \<times> val) list) \<Rightarrow> (string \<times> val) list" where
  "emit_places ps m = concat (map (\<lambda>p. case m p of None \<Rightarrow> [] | Some l \<Rightarrow> l) ps)"

text \<open>
  One pass of the loop \<open>for egroup in autospec.split(';')\<close> of \<open>autostart_riders\<close>.
  The state is the recursion guard and the calls of \<open>race.addrider\<close> made so far.
\<close>

definition autostart_group :: "loader \<Rightarrow> (string \<Rightarrow> int list) \<Rightarrow> eventdb \<Rightarrow> string \<Rightarrow> nat option \<Rightarrow>
    string \<Rightarrow> string fset \<times> (string \<times> val) list \<Rightarrow> error + (string fset \<times> (string \<times> val) list)" where
  "autostart_group load placeset edb race_evtype infocol egroup st =
     (case st of (autorecurse, riders) \<Rightarrow>
      let specvec = split_on CHR '':'' egroup in
      if length specvec = 2 then
        let evno = strip (specvec ! 0) in
        (case edb_get edb evno of
           Some e \<Rightarrow>
             if evno |\<notin>| autorecurse then
               let autorecurse1 = finsert evno autorecurse;
                   ps = placeset (specvec ! 1)
               in (case load autorecurse1 e of
                     Inl err \<Rightarrow> Inl err
                   | Inr (h, autorecurse2) \<Rightarrow>
                       let evplacemap =
                             (if h_finished h \<or> (h_evtype h = ''omnium'' \<and> race_evtype \<noteq> ''classification'')
                              then foldl (add_evplace ps infocol) Map.empty (h_result_gen h)
                              else Map.empty);
                           riders' = riders @ emit_places ps evplacemap
                       in if evno |\<in>| autorecurse2
                          then Inr (autorecurse2 |-| {|evno|}, riders')
                          else Inl KeyError)
             else Inr st
         | None \<Rightarrow> Inr st)
      else Inr st)"

fun autostart_groups :: "loader \<Rightarrow> (string \<Rightarrow> int list) \<Rightarrow> eventdb \<Rightarrow> string \<Rightarrow> nat option \<Rightarrow>
    string list \<Rightarrow> string fset \<times> (string \<times> val) list \<Rightarrow> error + (string fset \<times> (string \<times> val) list)" where
  "autostart_groups load placeset edb race_evtype infocol [] st = Inr st"
| "autostart_groups load placeset edb race_evtype infocol (egroup # egroups) st =
     (case autostart_group load placeset edb race_evtype infocol egroup st of
        Inl err \<Rightarrow> Inl err
      | Inr st' \<Rightarrow> autostart_groups load placeset edb race_evtype infocol egroups st')"

text \<open>
  \<open>autostart_riders(race, autospec, infocol, final)\<close>.  Of \<open>race\<close> the function reads
  the type and calls \<open>addrider\<close>; the parameter \<open>final\<close> is not read.
\<close>

definition autostart_riders :: "loader \<Rightarrow> (string \<Rightarrow> int list) \<Rightarrow> eventdb \<Rightarrow> string fset \<Rightarrow> string \<Rightarrow>
    string \<Rightarrow> nat option \<Rightarrow> bool \<Rightarrow> error + (string fset \<times> (string \<times> val) list)" where
  "autostart_riders load placeset edb autorecurse race_evtype autospec infocol final =
     (if fcard autorecurse > MAX_AUTORECURSE then Inr (autorecurse, [])
      else autostart_groups load placeset edb race_evtype infocol
             (split_on CHR '';'' autospec) (autorecurse, []))"

text \<open>
  \<open>autoplace_riders\<close>: \<open>places\<close> is the dict from a rank to the riders with that
  rank, over all groups, kept with its keys in insertion order.
\<close>

definition add_place :: "int list \<Rightarrow> (int \<times> string list) list \<Rightarrow> row \<Rightarrow> (int \<times> string list) list" where
  "add_place ps places ri =
     (case r_rank ri of
        VInt rank \<Rightarrow>
          if rank \<in> set ps
          then AList.update rank
                 ((case map_of places rank of None \<Rightarrow> [] | Some l \<Rightarrow> l) @ [r_bib ri]) places
          else places
      | _ \<Rightarrow> places)"

definition autoplace_group :: "loader \<Rightarrow> (string \<Rightarrow> int list) \<Rightarrow> eventdb \<Rightarrow> bool \<Rightarrow>
    string \<Rightarrow> string fset \<times> (int \<times> string list) list \<Rightarrow> error + (string fset \<times> (int \<times> string list) list)" where
  "autoplace_group load placeset edb final egroup st =
     (case st of (autorecurse, places) \<Rightarrow>
      let specvec = split_on CHR '':'' egroup in
      if length specvec = 2 then
        let evno = strip (specvec ! 0) in
        if evno |\<notin>| autorecurse then
          let autorecurse1 = finsert evno autorecurse;
              ps = placeset (specvec ! 1)
          in (case edb_get edb evno of
                Some e \<Rightarrow>
                  (case load autorecurse1 e of
                     Inl err \<Rightarrow> Inl err
                   | Inr (h, autorecurse2) \<Rightarrow>
                       let isFinal = (h_standingstr h = ''Result'');
                           places' = (if \<not> final \<or> isFinal
                                      then foldl (add_place ps) places (h_result_gen h)
                                      else places)
                       in if evno |\<in>| autorecurse2
                          then Inr (autorecurse2 |-| {|evno|}, places')
                          else Inl KeyError)
              | None \<Rightarrow> Inr (autorecurse1 |-| {|evno|}, places))
        else Inr st
      else Inr st)"

fun autoplace_groups :: "loader \<Rightarrow> (string \<Rightarrow> int list) \<Rightarrow> eventdb \<Rightarrow> bool \<Rightarrow>
    string list \<Rightarrow> string fset \<times> (int \<times> string list) list \<Rightarrow> error + (string fset \<times> (int \<times> string list) list)" where
  "autoplace_groups load placeset edb final [] st = Inr st"
| "autoplace_groups load placeset edb final (egroup # egroups) st =
     (case autoplace_group load placeset edb final egroup st of
        Inl err \<Rightarrow> Inl err
      | Inr st' \<Rightarrow> autoplace_groups load placeset edb final egroups st')"

text \<open>The last loop: \<open>for place in sorted(places): ret += ' ' + '-'.join(places[place])\<close>.\<close>

definition place_string :: "(int \<times> string list) list \<Rightarrow> string" where
  "place_string places =
     concat (map (\<lambda>place. '' '' @ join ''-'' (case map_of places place of None \<Rightarrow> [] | Some l \<Rightarrow> l))
               (sort (map fst places)))"

definition autoplace_riders :: "loader \<Rightarrow> (string \<Rightarrow> int list) \<Rightarrow> eventdb \<Rightarrow> string fset \<Rightarrow>
    string \<Rightarrow> nat option \<Rightarrow> bool \<Rightarrow> error + (string fset \<times> string)" where
  "autoplace_riders load placeset edb autorecurse autospec infocol final =
     (case autoplace_groups load placeset edb final (split_on CHR '';'' autospec) (autorecurse, []) of
        Inl err \<Rightarrow> Inl err
      | Inr (autorecurse', places) \<Rightarrow> Inr (autorecurse', place_string places))"

subsection \<open>Example inputs\<close>

text \<open>
  A source event \<open>E1\<close> whose result is \<open>A, B, C\<close> on the ranks 1, 2, 3, a loader that
  returns its handler and leaves the guard, and \<open>strops.placeset\<close> at the place-set
  \<open>3 1 2\<close>.  The other handlers are the same source not finished, as a sprint and as
  an omnium.
\<close>

definition src_row :: "string \<Rightarrow> int \<Rightarrow> row" where
  "src_row bib rank = \<lparr>r_bib = bib, r_rank = VInt rank, r_rest = []\<rparr>"

definition example_handler :: handler where
  "example_handler = \<lparr>h_evtype = ''sprint'', h_finished = True, h_standingstr = ''Result'',
     h_result_gen = [src_row ''A'' 1, src_row ''B'' 2, src_row ''C'' 3]\<rparr>"

definition example_load :: loader where
  "example_load autorecurse e = Inr (example_handler, autorecurse)"

definition example_placeset :: "string \<Rightarrow> int list" where
  "example_placeset spec = (if spec = ''3 1 2'' then [3, 1, 2] else [])"

definition example_edb :: eventdb where
  "example_edb = [\<lparr>evid = ''E1'', etype = ''sprint'', depend = '''', auto = '''',
     reference = '''', dirty = False, result = True\<rparr>]"

definition nonfinal_handler :: handler where
  "nonfinal_handler = \<lparr>h_evtype = ''sprint'', h_finished = False, h_standingstr = ''Provisional Result'',
     h_result_gen = [src_row ''A'' 1, src_row ''B'' 2, src_row ''C'' 3]\<rparr>"

definition omnium_handler :: handler where
  "omnium_handler = \<lparr>h_evtype = ''omnium'', h_finished = False, h_standingstr = ''Provisional Result'',
     h_result_gen = [src_row ''A'' 1, src_row ''B'' 2, src_row ''C'' 3]\<rparr>"

definition nonfinal_load :: loader where
  "nonfinal_load autorecurse e = Inr (nonfinal_handler, autorecurse)"

definition omnium_load :: loader where
  "omnium_load autorecurse e = Inr (omnium_handler, autorecurse)"

definition nine_sources :: "string fset" where
  "nine_sources = {|''S1'', ''S2'', ''S3'', ''S4'', ''S5'', ''S6'', ''S7'', ''S8'', ''S9''|}"

subsection \<open>The order of the riders\<close>

text \<open>The result lines with the rank \<open>p\<close>, in their order; the riders that \<open>places\<close> holds under a rank.\<close>

definition ranked :: "row list \<Rightarrow> int \<Rightarrow> row list" where
  "ranked rows p = filter (\<lambda>ri. r_rank ri = VInt p) rows"

lemma evplacemap_lookup:
  "(case foldl (add_evplace ps infocol) m rows p of None \<Rightarrow> [] | Some l \<Rightarrow> l) =
     (case m p of None \<Rightarrow> [] | Some l \<Rightarrow> l) @
     (if p \<in> set ps then map (\<lambda>ri. (r_bib ri, seed_of infocol ri)) (ranked rows p) else [])"
proof (induction rows arbitrary: m)
  case Nil
  then show ?case by (simp add: ranked_def)
next
  case (Cons ri rows)
  show ?case
    unfolding foldl_Cons Cons.IH
    by (cases "r_rank ri") (auto simp: add_evplace_def ranked_def)
qed

lemma emit_places_order:
  "emit_places ps (foldl (add_evplace ps infocol) Map.empty rows) =
     concat (map (\<lambda>p. map (\<lambda>ri. (r_bib ri, seed_of infocol ri)) (ranked rows p)) ps)"
proof -
  have "(\<lambda>p. case foldl (add_evplace ps infocol) Map.empty rows p of None \<Rightarrow> [] | Some l \<Rightarrow> l) p =
      (\<lambda>p. map (\<lambda>ri. (r_bib ri, seed_of infocol ri)) (ranked rows p)) p" if "p \<in> set ps" for p
    using that by (simp add: evplacemap_lookup)
  then show ?thesis unfolding emit_places_def by (intro arg_cong [where f = concat] map_cong) auto
qed

lemma emit_places_empty: "emit_places ps Map.empty = []"
  by (induction ps) (simp_all add: emit_places_def)

definition places_of :: "(int \<times> string list) list \<Rightarrow> int \<Rightarrow> string list" where
  "places_of places p = (case map_of places p of None \<Rightarrow> [] | Some l \<Rightarrow> l)"

lemma add_place_distinct:
  "distinct (map fst places) \<Longrightarrow> distinct (map fst (add_place ps places ri))"
  by (cases "r_rank ri") (auto simp: add_place_def distinct_update)

lemma add_place_keys:
  "fst ` set (add_place ps places ri) =
     fst ` set places \<union> {p. p \<in> set ps \<and> r_rank ri = VInt p}"
  by (cases "r_rank ri") (auto simp: add_place_def dom_update [unfolded dom_map_of_conv_image_fst])

lemma add_place_lookup:
  "places_of (add_place ps places ri) p =
     places_of places p @ (if p \<in> set ps \<and> r_rank ri = VInt p then [r_bib ri] else [])"
  by (cases "r_rank ri") (auto simp: add_place_def places_of_def update_conv')

lemma foldl_add_place:
  "distinct (map fst places) \<Longrightarrow>
   distinct (map fst (foldl (add_place ps) places rows)) \<and>
   fst ` set (foldl (add_place ps) places rows) =
     fst ` set places \<union> {p \<in> set ps. ranked rows p \<noteq> []} \<and>
   (\<forall>p. places_of (foldl (add_place ps) places rows) p =
     places_of places p @ (if p \<in> set ps then map r_bib (ranked rows p) else []))"
proof (induction rows arbitrary: places)
  case Nil
  then show ?case by (simp add: ranked_def)
next
  case (Cons ri rows)
  from Cons.prems have d: "distinct (map fst (add_place ps places ri))" by (rule add_place_distinct)
  note ih = Cons.IH [OF d]
  show ?case
  proof (intro conjI allI)
    show "distinct (map fst (foldl (add_place ps) places (ri # rows)))" using ih by simp
    show "fst ` set (foldl (add_place ps) places (ri # rows)) =
        fst ` set places \<union> {p \<in> set ps. ranked (ri # rows) p \<noteq> []}"
      using ih by (auto simp: add_place_keys ranked_def)
    fix p
    show "places_of (foldl (add_place ps) places (ri # rows)) p =
        places_of places p @ (if p \<in> set ps then map r_bib (ranked (ri # rows) p) else [])"
      using ih by (auto simp: add_place_lookup ranked_def)
  qed
qed

lemma place_string_sorted:
  assumes "distinct (map fst places)"
  shows "place_string places =
     concat (map (\<lambda>place. '' '' @ join ''-'' (places_of places place))
               (sorted_list_of_set (fst ` set places)))"
proof -
  have "sorted_list_of_set (set (map fst places)) = sort (remdups (map fst places))"
    by (rule sorted_list_of_set_sort_remdups)
  also have "remdups (map fst places) = map fst places"
    using assms by (rule distinct_remdups_id)
  finally have "sort (map fst places) = sorted_list_of_set (fst ` set places)" by simp
  then show ?thesis by (simp add: place_string_def places_of_def)
qed

lemma place_string_foldl:
  "place_string (foldl (add_place ps) [] rows) =
     concat (map (\<lambda>p. '' '' @ join ''-'' (map r_bib (ranked rows p)))
               (sorted_list_of_set {p \<in> set ps. ranked rows p \<noteq> []}))"
proof -
  have d: "distinct (map fst ([] :: (int \<times> string list) list))" by simp
  note f = foldl_add_place [OF d, of ps rows]
  have fin: "finite {p \<in> set ps. ranked rows p \<noteq> []}" by simp
  have "concat (map (\<lambda>place. '' '' @ join ''-'' (places_of (foldl (add_place ps) [] rows) place))
               (sorted_list_of_set {p \<in> set ps. ranked rows p \<noteq> []})) =
        concat (map (\<lambda>p. '' '' @ join ''-'' (map r_bib (ranked rows p)))
               (sorted_list_of_set {p \<in> set ps. ranked rows p \<noteq> []}))"
    using f fin by (intro arg_cong [where f = concat] map_cong refl) (auto simp: places_of_def)
  with f show ?thesis by (simp add: place_string_sorted)
qed

lemma finsert_remove: "x |\<notin>| A \<Longrightarrow> finsert x A |-| {|x|} = A"
  by auto

lemma autostart_group_resolved:
  assumes "split_on CHR '':'' egroup = [a, b]" "edb_get edb (strip a) = Some e"
    and "strip a |\<notin>| ar" "load (finsert (strip a) ar) e = Inr (h, ar2)" "strip a |\<in>| ar2"
  shows "autostart_group load placeset edb race_evtype infocol egroup (ar, riders) =
     Inr (ar2 |-| {|strip a|},
          riders @ (if h_finished h \<or> (h_evtype h = ''omnium'' \<and> race_evtype \<noteq> ''classification'')
                    then concat (map (\<lambda>p. map (\<lambda>ri. (r_bib ri, seed_of infocol ri))
                                          (ranked (h_result_gen h) p)) (placeset b))
                    else []))"
  using assms by (simp add: autostart_group_def Let_def emit_places_order emit_places_empty)

lemma autoplace_group_resolved:
  assumes "split_on CHR '':'' egroup = [a, b]" "edb_get edb (strip a) = Some e"
    and "strip a |\<notin>| ar" "load (finsert (strip a) ar) e = Inr (h, ar2)" "strip a |\<in>| ar2"
  shows "autoplace_group load placeset edb final egroup (ar, places) =
     Inr (ar2 |-| {|strip a|},
          if \<not> final \<or> h_standingstr h = ''Result''
          then foldl (add_place (placeset b)) places (h_result_gen h) else places)"
  using assms by (simp add: autoplace_group_def Let_def)



lemma example_split: "split_on CHR '';'' ''E1:3 1 2'' = [''E1:3 1 2'']"
  "split_on CHR '':'' ''E1:3 1 2'' = [''E1'', ''3 1 2'']" "strip ''E1'' = ''E1''"
  by (simp_all add: Let_def strip_def is_space_def)

lemma example_get: "edb_get example_edb ''E1'' = Some (hd example_edb)"
  by (simp add: example_edb_def edb_get_def)

lemma example_ranked:
  "ranked [src_row ''A'' 1, src_row ''B'' 2, src_row ''C'' 3] 1 = [src_row ''A'' 1]"
  "ranked [src_row ''A'' 1, src_row ''B'' 2, src_row ''C'' 3] 2 = [src_row ''B'' 2]"
  "ranked [src_row ''A'' 1, src_row ''B'' 2, src_row ''C'' 3] 3 = [src_row ''C'' 3]"
  by (simp_all add: ranked_def src_row_def)

lemma example_premises:
  "edb_get example_edb (strip ''E1'') = Some (hd example_edb)"
  "strip ''E1'' |\<notin>| {||}"
  "example_load (finsert (strip ''E1'') {||}) (hd example_edb) = Inr (example_handler, {|''E1''|})"
  "strip ''E1'' |\<in>| {|''E1''|}"
  by (simp_all add: example_split example_get example_load_def)

lemma example_emit:
  "concat (map (\<lambda>p. map (\<lambda>ri. (r_bib ri, seed_of (Some 1) ri))
      (ranked (h_result_gen example_handler) p)) (example_placeset ''3 1 2'')) =
   [(''C'', VInt 3), (''A'', VInt 1), (''B'', VInt 2)]"
  by (simp add: example_handler_def example_placeset_def example_ranked)
    (simp add: src_row_def seed_of_def row_len_def row_col_def)

lemma example_places:
  "foldl (add_place (example_placeset ''3 1 2'')) [] (h_result_gen example_handler) =
     [(1, [''A'']), (2, [''B'']), (3, [''C''])]"
  by (simp add: example_handler_def example_placeset_def add_place_def src_row_def)

lemma example_autostart:
  "autostart_riders example_load example_placeset example_edb {||} ''sprint'' ''E1:3 1 2'' (Some 1) True
     = Inr ({||}, [(''C'', VInt 3), (''A'', VInt 1), (''B'', VInt 2)])"
proof -
  note r = autostart_group_resolved [where load = example_load and placeset = example_placeset
      and race_evtype = "''sprint''" and infocol = "Some 1" and riders = "[]",
      OF example_split(2) example_premises]
  have g: "autostart_group example_load example_placeset example_edb ''sprint'' (Some 1) ''E1:3 1 2'' ({||}, [])
      = Inr ({||}, [(''C'', VInt 3), (''A'', VInt 1), (''B'', VInt 2)])"
    unfolding r example_emit by (simp add: example_split example_handler_def)
  show ?thesis
    unfolding autostart_riders_def example_split(1) autostart_groups.simps g
    by (simp add: MAX_AUTORECURSE_def fcard_fempty)
qed

lemma example_autoplace:
  "autoplace_riders example_load example_placeset example_edb {||} ''E1:3 1 2'' None False
     = Inr ({||}, '' A B C'')"
proof -
  note r = autoplace_group_resolved [where load = example_load and placeset = example_placeset
      and final = False and places = "[]", OF example_split(2) example_premises]
  have g: "autoplace_group example_load example_placeset example_edb False ''E1:3 1 2'' ({||}, [])
      = Inr ({||}, [(1, [''A'']), (2, [''B'']), (3, [''C''])])"
    unfolding r by (simp add: example_split example_places)
  have s: "place_string [(1, [''A'']), (2, [''B'']), (3, [''C''])] = '' A B C''"
    by (simp add: place_string_def)
  show ?thesis
    by (simp add: autoplace_riders_def example_split(1) g s)
qed

lemma autostart_riders_final:
  "autostart_riders load placeset edb ar race_evtype autospec infocol final =
   autostart_riders load placeset edb ar race_evtype autospec infocol True"
  by (simp add: autostart_riders_def)

lemma nine_sources_card: "fcard nine_sources = 9"
  by (simp add: nine_sources_def fcard_finsert_if fcard_fempty)

lemma nine_premises:
  "edb_get example_edb (strip ''E1'') = Some (hd example_edb)"
  "strip ''E1'' |\<notin>| nine_sources"
  "example_load (finsert (strip ''E1'') nine_sources) (hd example_edb) =
     Inr (example_handler, finsert ''E1'' nine_sources)"
  "strip ''E1'' |\<in>| finsert ''E1'' nine_sources"
  by (simp_all add: example_split example_get example_load_def nine_sources_def)

lemma nine_autoplace:
  "autoplace_riders example_load example_placeset example_edb nine_sources ''E1:3 1 2'' None False
     = Inr (nine_sources, '' A B C'')"
proof -
  note r = autoplace_group_resolved [where load = example_load and placeset = example_placeset
      and final = False and places = "[]", OF example_split(2) nine_premises]
  have n: "finsert ''E1'' nine_sources |-| {|''E1''|} = nine_sources"
    using nine_premises(2) by (simp add: example_split finsert_remove)
  have g: "autoplace_group example_load example_placeset example_edb False ''E1:3 1 2'' (nine_sources, [])
      = Inr (nine_sources, [(1, [''A'']), (2, [''B'']), (3, [''C''])])"
    unfolding r by (simp add: example_split example_places n)
  have s: "place_string [(1, [''A'']), (2, [''B'']), (3, [''C''])] = '' A B C''"
    by (simp add: place_string_def)
  show ?thesis
    by (simp add: autoplace_riders_def example_split(1) g s)
qed

lemma other_premises:
  "nonfinal_load (finsert (strip ''E1'') {||}) (hd example_edb) = Inr (nonfinal_handler, {|''E1''|})"
  "omnium_load (finsert (strip ''E1'') {||}) (hd example_edb) = Inr (omnium_handler, {|''E1''|})"
  by (simp_all add: example_split nonfinal_load_def omnium_load_def)

lemma nonfinal_autostart:
  "autostart_riders nonfinal_load example_placeset example_edb {||} ''sprint'' ''E1:3 1 2'' None False
     = Inr ({||}, [])"
proof -
  note r = autostart_group_resolved [where load = nonfinal_load and placeset = example_placeset
      and race_evtype = "''sprint''" and infocol = None and riders = "[]",
      OF example_split(2) example_premises(1,2) other_premises(1) example_premises(4)]
  have g: "autostart_group nonfinal_load example_placeset example_edb ''sprint'' None ''E1:3 1 2'' ({||}, [])
      = Inr ({||}, [])"
    unfolding r by (simp add: example_split nonfinal_handler_def)
  show ?thesis
    unfolding autostart_riders_def example_split(1) autostart_groups.simps g
    by (simp add: MAX_AUTORECURSE_def fcard_fempty)
qed

lemma omnium_autoplace:
  "autoplace_riders omnium_load example_placeset example_edb {||} ''E1:3 1 2'' None True
     = Inr ({||}, '''')"
proof -
  note r = autoplace_group_resolved [where load = omnium_load and placeset = example_placeset
      and final = True and places = "[]",
      OF example_split(2) example_premises(1,2) other_premises(2) example_premises(4)]
  have g: "autoplace_group omnium_load example_placeset example_edb True ''E1:3 1 2'' ({||}, [])
      = Inr ({||}, [])"
    unfolding r by (simp add: example_split omnium_handler_def)
  show ?thesis
    by (simp add: autoplace_riders_def example_split(1) g place_string_def)
qed

lemma omnium_autostart:
  "autostart_riders omnium_load example_placeset example_edb {||} ''sprint'' ''E1:3 1 2'' None True
     = Inr ({||}, [(''C'', VNone), (''A'', VNone), (''B'', VNone)])"
proof -
  note r = autostart_group_resolved [where load = omnium_load and placeset = example_placeset
      and race_evtype = "''sprint''" and infocol = None and riders = "[]",
      OF example_split(2) example_premises(1,2) other_premises(2) example_premises(4)]
  have g: "autostart_group omnium_load example_placeset example_edb ''sprint'' None ''E1:3 1 2'' ({||}, [])
      = Inr ({||}, [(''C'', VNone), (''A'', VNone), (''B'', VNone)])"
    unfolding r
    by (simp add: example_split omnium_handler_def example_placeset_def example_ranked)
      (simp add: src_row_def seed_of_def)
  show ?thesis
    unfolding autostart_riders_def example_split(1) autostart_groups.simps g
    by (simp add: MAX_AUTORECURSE_def fcard_fempty)
qed

text \<open>
  Claim C2 asks for the literal order of the place-set on both paths.  On the
  place-aggregation path the riders come out by ascending rank: over the source ranks
  \<open>1:A, 2:B, 3:C\<close> the place-set \<open>3 1 2\<close> gives \<open>' A B C'\<close>, not \<open>C, A, B\<close>.
\<close>

theorem autoplace_order_counterexample:
  "example_placeset ''3 1 2'' = [3, 1, 2] \<and>
   h_result_gen example_handler = [src_row ''A'' 1, src_row ''B'' 2, src_row ''C'' 3] \<and>
   autoplace_riders example_load example_placeset example_edb {||} ''E1:3 1 2'' None False
     = Inr ({||}, '' A B C'') \<and>
   '' A B C'' \<noteq> '' C A B''"
  using example_autoplace by (simp add: example_placeset_def example_handler_def)

text \<open>
  Claim C2, as the code has it.  For a group that is resolved (well formed, its source in
  the directory and not on the guard, the handler loaded): \<open>autostart_riders\<close> adds the
  riders in the literal order of the place-set, and the riders of one rank stay together
  in the order of the result lines; \<open>autoplace_riders\<close> collects the riders of a rank
  in a list under that rank as well, but its string lists the ranks in ascending order,
  the riders of one rank joined by \<open>-\<close>.
\<close>

theorem autospec_place_order:
  assumes "split_on CHR '':'' egroup = [a, b]" "edb_get edb (strip a) = Some e"
    and "strip a |\<notin>| ar" "load (finsert (strip a) ar) e = Inr (h, ar2)" "strip a |\<in>| ar2"
  shows "(h_finished h \<or> (h_evtype h = ''omnium'' \<and> race_evtype \<noteq> ''classification'') \<longrightarrow>
           autostart_group load placeset edb race_evtype infocol egroup (ar, riders) =
             Inr (ar2 |-| {|strip a|},
                  riders @ concat (map (\<lambda>p. map (\<lambda>ri. (r_bib ri, seed_of infocol ri))
                                             (ranked (h_result_gen h) p)) (placeset b)))) \<and>
         (\<not> final \<or> h_standingstr h = ''Result'' \<longrightarrow>
           autoplace_group load placeset edb final egroup (ar, []) =
             Inr (ar2 |-| {|strip a|}, foldl (add_place (placeset b)) [] (h_result_gen h)) \<and>
           place_string (foldl (add_place (placeset b)) [] (h_result_gen h)) =
             concat (map (\<lambda>p. '' '' @ join ''-'' (map r_bib (ranked (h_result_gen h) p)))
                       (sorted_list_of_set {p \<in> set (placeset b). ranked (h_result_gen h) p \<noteq> []})))"
proof (intro conjI impI)
  assume "h_finished h \<or> (h_evtype h = ''omnium'' \<and> race_evtype \<noteq> ''classification'')"
  then show "autostart_group load placeset edb race_evtype infocol egroup (ar, riders) =
      Inr (ar2 |-| {|strip a|},
           riders @ concat (map (\<lambda>p. map (\<lambda>ri. (r_bib ri, seed_of infocol ri))
                                      (ranked (h_result_gen h) p)) (placeset b)))"
    using autostart_group_resolved [where load = load and placeset = placeset
        and race_evtype = race_evtype and infocol = infocol and riders = riders, OF assms] by simp
next
  assume "\<not> final \<or> h_standingstr h = ''Result''"
  then show "autoplace_group load placeset edb final egroup (ar, []) =
      Inr (ar2 |-| {|strip a|}, foldl (add_place (placeset b)) [] (h_result_gen h))"
    using autoplace_group_resolved [where load = load and placeset = placeset
        and final = final and places = "[]", OF assms] by simp
next
  show "place_string (foldl (add_place (placeset b)) [] (h_result_gen h)) =
      concat (map (\<lambda>p. '' '' @ join ''-'' (map r_bib (ranked (h_result_gen h) p)))
                (sorted_list_of_set {p \<in> set (placeset b). ranked (h_result_gen h) p \<noteq> []}))"
    by (rule place_string_foldl)
qed

theorem autospec_place_order_witness:
  "split_on CHR '':'' ''E1:3 1 2'' = [''E1'', ''3 1 2''] \<and>
   edb_get example_edb (strip ''E1'') = Some (hd example_edb) \<and>
   strip ''E1'' |\<notin>| {||} \<and>
   example_load (finsert (strip ''E1'') {||}) (hd example_edb) = Inr (example_handler, {|''E1''|}) \<and>
   strip ''E1'' |\<in>| {|''E1''|} \<and>
   h_finished example_handler \<and>
   autostart_group example_load example_placeset example_edb ''sprint'' (Some 1) ''E1:3 1 2'' ({||}, []) =
     Inr ({||}, [(''C'', VInt 3), (''A'', VInt 1), (''B'', VInt 2)]) \<and>
   autoplace_group example_load example_placeset example_edb False ''E1:3 1 2'' ({||}, []) =
     Inr ({||}, [(1, [''A'']), (2, [''B'']), (3, [''C''])]) \<and>
   place_string [(1, [''A'']), (2, [''B'']), (3, [''C''])] = '' A B C''"
proof -
  note t = autospec_place_order [where load = example_load and placeset = example_placeset
      and race_evtype = "''sprint''" and infocol = "Some 1" and riders = "[]" and final = False,
      OF example_split(2) example_premises]
  have f: "h_finished example_handler" by (simp add: example_handler_def)
  have n: "{|''E1''|} |-| {|strip ''E1''|} = {||}" by (simp add: example_split)
  from t f have "autostart_group example_load example_placeset example_edb ''sprint'' (Some 1)
      ''E1:3 1 2'' ({||}, []) =
     Inr ({|''E1''|} |-| {|strip ''E1''|},
          [] @ concat (map (\<lambda>p. map (\<lambda>ri. (r_bib ri, seed_of (Some 1) ri))
                (ranked (h_result_gen example_handler) p)) (example_placeset ''3 1 2'')))"
    by blast
  then have c1: "autostart_group example_load example_placeset example_edb ''sprint'' (Some 1)
      ''E1:3 1 2'' ({||}, []) = Inr ({||}, [(''C'', VInt 3), (''A'', VInt 1), (''B'', VInt 2)])"
    unfolding example_emit n by simp
  from t have "autoplace_group example_load example_placeset example_edb False ''E1:3 1 2'' ({||}, []) =
      Inr ({|''E1''|} |-| {|strip ''E1''|},
           foldl (add_place (example_placeset ''3 1 2'')) [] (h_result_gen example_handler))"
    by blast
  then have c2: "autoplace_group example_load example_placeset example_edb False ''E1:3 1 2'' ({||}, []) =
      Inr ({||}, [(1, [''A'']), (2, [''B'']), (3, [''C''])])"
    unfolding example_places n .
  have c3: "place_string [(1, [''A'']), (2, [''B'']), (3, [''C''])] = '' A B C''"
    by (simp add: place_string_def)
  show ?thesis
    by (intro conjI) (rule example_split(2) example_premises f c1 c2 c3)+
qed

text \<open>
  Claim C3 does not hold as stated.  \<open>autostart_riders\<close> called with \<open>final=False\<close>
  takes nothing from a source that is not finished, and \<open>autoplace_riders\<close> called with
  \<open>final=True\<close> takes nothing from an omnium whose standing is not \<open>'Result'\<close>.
\<close>

theorem autospec_final_counterexample:
  "\<not> h_finished nonfinal_handler \<and> h_evtype nonfinal_handler = ''sprint'' \<and>
   autostart_riders nonfinal_load example_placeset example_edb {||} ''sprint'' ''E1:3 1 2'' None False
     = Inr ({||}, []) \<and>
   h_evtype omnium_handler = ''omnium'' \<and> h_standingstr omnium_handler \<noteq> ''Result'' \<and>
   autoplace_riders omnium_load example_placeset example_edb {||} ''E1:3 1 2'' None True
     = Inr ({||}, '''')"
  using nonfinal_autostart omnium_autoplace
  by (simp add: nonfinal_handler_def omnium_handler_def)

text \<open>
  Claim C3, as the code has it.  A resolved group of \<open>autostart_riders\<close> contributes
  exactly when the source is finished, or is an omnium and the target is not a
  classification; otherwise it adds no rider and is no error; the parameter \<open>final\<close>
  makes no difference to \<open>autostart_riders\<close>.  A resolved group of
  \<open>autoplace_riders\<close> contributes nothing when \<open>final\<close> is set and the standing of
  the source is not \<open>'Result'\<close>, and the places of the source otherwise, also of a source
  that is not final when \<open>final\<close> is not set; it has no exception for an omnium.
\<close>

theorem autospec_require_final:
  assumes "split_on CHR '':'' egroup = [a, b]" "edb_get edb (strip a) = Some e"
    and "strip a |\<notin>| ar" "load (finsert (strip a) ar) e = Inr (h, ar2)" "strip a |\<in>| ar2"
  shows "autostart_group load placeset edb race_evtype infocol egroup (ar, riders) =
           Inr (ar2 |-| {|strip a|},
                riders @ (if h_finished h \<or> (h_evtype h = ''omnium'' \<and> race_evtype \<noteq> ''classification'')
                          then concat (map (\<lambda>p. map (\<lambda>ri. (r_bib ri, seed_of infocol ri))
                                                (ranked (h_result_gen h) p)) (placeset b))
                          else [])) \<and>
         autostart_riders load placeset edb ar0 race_evtype autospec infocol final =
           autostart_riders load placeset edb ar0 race_evtype autospec infocol True \<and>
         autoplace_group load placeset edb final egroup (ar, places) =
           Inr (ar2 |-| {|strip a|},
                if final \<and> h_standingstr h \<noteq> ''Result'' then places
                else foldl (add_place (placeset b)) places (h_result_gen h))"
  using autostart_group_resolved [where load = load and placeset = placeset
        and race_evtype = race_evtype and infocol = infocol and riders = riders, OF assms]
    autoplace_group_resolved [where load = load and placeset = placeset
        and final = final and places = places, OF assms]
    autostart_riders_final [of load placeset edb ar0 race_evtype autospec infocol final]
  by simp

theorem autospec_require_final_witness:
  "split_on CHR '':'' ''E1:3 1 2'' = [''E1'', ''3 1 2''] \<and>
   edb_get example_edb (strip ''E1'') = Some (hd example_edb) \<and>
   strip ''E1'' |\<notin>| {||} \<and>
   omnium_load (finsert (strip ''E1'') {||}) (hd example_edb) = Inr (omnium_handler, {|''E1''|}) \<and>
   strip ''E1'' |\<in>| {|''E1''|} \<and>
   autostart_group omnium_load example_placeset example_edb ''classification'' None ''E1:3 1 2'' ({||}, []) =
     Inr ({||}, []) \<and>
   autoplace_group omnium_load example_placeset example_edb True ''E1:3 1 2'' ({||}, []) =
     Inr ({||}, [])"
proof -
  note t = autospec_require_final [where load = omnium_load and placeset = example_placeset
      and race_evtype = "''classification''" and infocol = None and riders = "[]" and final = True
      and places = "[]",
      OF example_split(2) example_premises(1,2) other_premises(2) example_premises(4)]
  have n: "{|''E1''|} |-| {|strip ''E1''|} = {||}" by (simp add: example_split)
  have o: "\<not> h_finished omnium_handler" "h_standingstr omnium_handler \<noteq> ''Result''"
    by (simp_all add: omnium_handler_def)
  from t [THEN conjunct1] o have c1: "autostart_group omnium_load example_placeset example_edb
      ''classification'' None ''E1:3 1 2'' ({||}, []) = Inr ({||}, [])"
    unfolding n by simp
  from t [THEN conjunct2, THEN conjunct2] o have c2: "autoplace_group omnium_load example_placeset
      example_edb True ''E1:3 1 2'' ({||}, []) = Inr ({||}, [])"
    unfolding n by simp
  show ?thesis
    by (intro conjI)
      (rule example_split(2) example_premises(1,2) other_premises(2) example_premises(4) c1 c2)+
qed

text \<open>
  Claim C4 extends the bound to \<open>autoplace_riders\<close>, which has no such test: with nine
  sources on the guard it still resolves its group.
\<close>

theorem autoplace_depth_counterexample:
  "fcard nine_sources = 9 \<and> MAX_AUTORECURSE = 8 \<and>
   autoplace_riders example_load example_placeset example_edb nine_sources ''E1:3 1 2'' None False
     = Inr (nine_sources, '' A B C'')"
  using nine_sources_card nine_autoplace by (simp add: MAX_AUTORECURSE_def)

text \<open>
  Claim C4, as the code has it.  The bound is 8.  With more than 8 sources on the guard
  \<open>autostart_riders\<close> returns at once, with no error, no handler loaded, no rider added
  and the guard as it was, so the nested call entered with nine sources on the guard is
  the one that gives up; with 8 or fewer it goes through its groups.
  \<open>autoplace_riders\<close> does not test the guard's size: it resolves a group at any depth.
\<close>

theorem autostart_recursion_bound:
  "MAX_AUTORECURSE = 8 \<and>
   (fcard ar > MAX_AUTORECURSE \<longrightarrow>
      autostart_riders load placeset edb ar race_evtype autospec infocol final = Inr (ar, [])) \<and>
   (fcard ar \<le> MAX_AUTORECURSE \<longrightarrow>
      autostart_riders load placeset edb ar race_evtype autospec infocol final =
        autostart_groups load placeset edb race_evtype infocol (split_on CHR '';'' autospec) (ar, [])) \<and>
   (split_on CHR '';'' autospec = [egroup] \<and> split_on CHR '':'' egroup = [a, b] \<and>
    edb_get edb (strip a) = Some e \<and> strip a |\<notin>| ar \<and>
    load (finsert (strip a) ar) e = Inr (h, ar2) \<and> strip a |\<in>| ar2 \<longrightarrow>
      autoplace_riders load placeset edb ar autospec infocol final =
        Inr (ar2 |-| {|strip a|},
             place_string (if final \<and> h_standingstr h \<noteq> ''Result'' then []
                           else foldl (add_place (placeset b)) [] (h_result_gen h))))"
proof (intro conjI impI)
  show "MAX_AUTORECURSE = 8" by (simp add: MAX_AUTORECURSE_def)
next
  assume "fcard ar > MAX_AUTORECURSE"
  then show "autostart_riders load placeset edb ar race_evtype autospec infocol final = Inr (ar, [])"
    by (simp add: autostart_riders_def)
next
  assume "fcard ar \<le> MAX_AUTORECURSE"
  then show "autostart_riders load placeset edb ar race_evtype autospec infocol final =
      autostart_groups load placeset edb race_evtype infocol (split_on CHR '';'' autospec) (ar, [])"
    by (simp add: autostart_riders_def)
next
  assume a: "split_on CHR '';'' autospec = [egroup] \<and> split_on CHR '':'' egroup = [a, b] \<and>
    edb_get edb (strip a) = Some e \<and> strip a |\<notin>| ar \<and>
    load (finsert (strip a) ar) e = Inr (h, ar2) \<and> strip a |\<in>| ar2"
  then have p: "split_on CHR '':'' egroup = [a, b]" "edb_get edb (strip a) = Some e"
    "strip a |\<notin>| ar" "load (finsert (strip a) ar) e = Inr (h, ar2)" "strip a |\<in>| ar2"
    by simp_all
  have "autoplace_group load placeset edb final egroup (ar, []) =
     Inr (ar2 |-| {|strip a|},
          if \<not> final \<or> h_standingstr h = ''Result''
          then foldl (add_place (placeset b)) [] (h_result_gen h) else [])"
    by (rule autoplace_group_resolved [where load = load, OF p])
  with a show "autoplace_riders load placeset edb ar autospec infocol final =
      Inr (ar2 |-| {|strip a|},
           place_string (if final \<and> h_standingstr h \<noteq> ''Result'' then []
                         else foldl (add_place (placeset b)) [] (h_result_gen h)))"
    by (auto simp: autoplace_riders_def)
qed

theorem autostart_recursion_bound_witness:
  "fcard nine_sources > MAX_AUTORECURSE \<and>
   autostart_riders example_load example_placeset example_edb nine_sources ''sprint'' ''E1:3 1 2''
     (Some 1) True = Inr (nine_sources, []) \<and>
   fcard ({||} :: string fset) \<le> MAX_AUTORECURSE \<and>
   autostart_riders example_load example_placeset example_edb {||} ''sprint'' ''E1:3 1 2''
     (Some 1) True = Inr ({||}, [(''C'', VInt 3), (''A'', VInt 1), (''B'', VInt 2)])"
proof -
  have h: "fcard nine_sources > MAX_AUTORECURSE"
    by (simp add: nine_sources_card MAX_AUTORECURSE_def)
  note t = autostart_recursion_bound [of nine_sources example_load example_placeset example_edb
      "''sprint''" "''E1:3 1 2''" "Some 1" True]
  from t h have c: "autostart_riders example_load example_placeset example_edb nine_sources
      ''sprint'' ''E1:3 1 2'' (Some 1) True = Inr (nine_sources, [])"
    by blast
  have z: "fcard ({||} :: string fset) \<le> MAX_AUTORECURSE" by (simp add: fcard_fempty)
  show ?thesis by (intro conjI) (rule h c z example_autostart)+
qed

subsection \<open>Handlers that resolve their own autospec\<close>




definition self_edb :: eventdb where
  "self_edb =
     [\<lparr>evid = ''E1'', etype = ''sprint'', depend = ''E1'', auto = ''E1:1'', reference = '''',
       dirty = False, result = True\<rparr>]"



























lemma self_check: "check_depends_dirty self_edb ''E1'' {} = (False, self_edb)"
  by (simp add: check_depends_dirty.simps self_edb_def edb_get_def is_dirty_def split_ws_def
      is_space_def)






section \<open>Renumbering an event (\<open>eventno_change\<close>)\<close>












subsection \<open>Splitting and joining\<close>
































end
